theory Spec2Isabelle
  imports Main
begin

section \<open>Strings and HTTP headers\<close>

text \<open>
  Go strings are byte sequences; they are modelled as \<^typ>\<open>string\<close> (a list of 8-bit
  characters). \<open>HasPrefix\<close> and \<open>Contains\<close> are the functions of Go's \<open>strings\<close>
  package that \<open>ghcache.go\<close> calls.
\<close>

fun HasPrefix :: "string \<Rightarrow> string \<Rightarrow> bool" where
  "HasPrefix s [] = True"
| "HasPrefix [] (p # ps) = False"
| "HasPrefix (c # cs) (p # ps) = (c = p \<and> HasPrefix cs ps)"

fun Contains :: "string \<Rightarrow> string \<Rightarrow> bool" where
  "Contains [] sub = (sub = [])"
| "Contains (c # cs) sub = (HasPrefix (c # cs) sub \<or> Contains cs sub)"

text \<open>
  \<open>textproto.CanonicalMIMEHeaderKey\<close>: a key made of header-field bytes only gets its
  first letter and every letter after a dash in upper case and all other letters in lower
  case; a key with any other byte is returned unchanged.
\<close>

definition validHeaderFieldByte :: "char \<Rightarrow> bool" where
  "validHeaderFieldByte c =
     (let n = (of_char c :: nat) in
        n \<in> set [33, 35, 36, 37, 38, 39, 42, 43, 45, 46, 94, 95, 96, 124, 126]
        \<or> (48 \<le> n \<and> n \<le> 57) \<or> (65 \<le> n \<and> n \<le> 90) \<or> (97 \<le> n \<and> n \<le> 122))"

definition toUpperByte :: "char \<Rightarrow> char" where
  "toUpperByte c =
     (let n = (of_char c :: nat) in if 97 \<le> n \<and> n \<le> 122 then char_of (n - 32) else c)"

definition toLowerByte :: "char \<Rightarrow> char" where
  "toLowerByte c =
     (let n = (of_char c :: nat) in if 65 \<le> n \<and> n \<le> 90 then char_of (n + 32) else c)"

fun canonicalize :: "bool \<Rightarrow> string \<Rightarrow> string" where
  "canonicalize upper [] = []"
| "canonicalize upper (c # cs) =
     (let c' = (if upper then toUpperByte c else toLowerByte c)
      in c' # canonicalize (c' = CHR ''-'') cs)"

definition CanonicalMIMEHeaderKey :: "string \<Rightarrow> string" where
  "CanonicalMIMEHeaderKey s =
     (if list_all validHeaderFieldByte s then canonicalize True s else s)"

text \<open>
  \<open>http.Header\<close> is a \<open>map[string][]string\<close>. \<open>Get\<close> returns the first value stored
  under the canonical form of the key, or the empty string; \<open>Set\<close> replaces whatever is
  stored under the canonical form of the key by the single given value.
\<close>

type_synonym Header = "string \<rightharpoonup> string list"

definition Get :: "Header \<Rightarrow> string \<Rightarrow> string" where
  "Get h key =
     (case h (CanonicalMIMEHeaderKey key) of
        None \<Rightarrow> []
      | Some [] \<Rightarrow> []
      | Some (v # vs) \<Rightarrow> v)"

definition Set :: "Header \<Rightarrow> string \<Rightarrow> string \<Rightarrow> Header" where
  "Set h key val = h(CanonicalMIMEHeaderKey key \<mapsto> [val])"

section \<open>Cache response modes\<close>

datatype CacheResponseMode =
    ModeError
  | ModeNoStore
  | ModeMiss
  | ModeChanged
  | ModeCoalesced
  | ModeRevalidated

fun modeString :: "CacheResponseMode \<Rightarrow> string" where
  "modeString ModeError = ''ERROR''"
| "modeString ModeNoStore = ''NO-STORE''"
| "modeString ModeMiss = ''MISS''"
| "modeString ModeChanged = ''CHANGED''"
| "modeString ModeCoalesced = ''COALESCED''"
| "modeString ModeRevalidated = ''REVALIDATED''"

definition cacheEntryCreationDateHeader :: string where
  "cacheEntryCreationDateHeader = ''X-PROW-REQUEST-DATE''"

definition TokenBudgetIdentifierHeader :: string where
  "TokenBudgetIdentifierHeader = ''X-PROW-GHCACHE-TOKEN-BUDGET-IDENTIFIER''"

fun CacheModeIsFree :: "CacheResponseMode \<Rightarrow> bool" where
  "CacheModeIsFree ModeCoalesced = True"
| "CacheModeIsFree ModeRevalidated = True"
| "CacheModeIsFree ModeError = True"
| "CacheModeIsFree _ = False"

definition cacheResponseMode :: "Header \<Rightarrow> CacheResponseMode" where
  "cacheResponseMode headers =
     (if Contains (Get headers ''Cache-Control'') ''no-store'' then ModeNoStore
      else if Contains (Get headers ''Status'') ''304 Not Modified'' then ModeRevalidated
      else if Get headers ''X-Conditional-Request'' \<noteq> [] then ModeChanged
      else ModeMiss)"

section \<open>Requests, responses, errors and contexts\<close>

text \<open>
  A Go \<open>error\<close> value is opaque to this package: it is only tested against \<open>nil\<close>,
  logged, wrapped (\<open>fmt.Errorf\<close> with \<open>%w\<close>), aggregated and returned. A
  \<open>context.Context\<close> is either the background context, which is never done, or a
  cancelable one, which carries its \<open>Err()\<close> once it is done.
\<close>

datatype error = Error string | Wrapped string error | Aggregate "error list"

datatype Context = Background | Cancelable "error option"

fun ctxErr :: "Context \<Rightarrow> error option" where
  "ctxErr Background = None"
| "ctxErr (Cancelable e) = e"

record Request =
  Method :: string
  URL_Path :: string
  URL_String :: string
  reqHeader :: Header
  reqContext :: Context

record Response =
  StatusCode :: int
  respHeader :: Header
  Body :: string

text \<open>
  A \<open>RoundTripper\<close> returns a response pointer and an error, either of which may be
  \<open>nil\<close>; it acts on a world of its own (the network, a cache) of type \<open>'w\<close>.
\<close>

type_synonym RoundTripResult = "Response option \<times> error option"

type_synonym 'w RoundTripper = "Request \<Rightarrow> 'w \<Rightarrow> RoundTripResult \<times> 'w"

section \<open>The throttling transport\<close>

text \<open>
  \<open>semaphore.Weighted\<close> as one goroutine sees it: \<open>Acquire\<close> fails with the context's
  error when the context is done, takes the weight when it is free, and otherwise blocks
  until another goroutine releases weight or the context becomes done. In this sequential
  model a call that blocks does not return: its value is \<open>None\<close>.
\<close>

record Weighted =
  size :: int
  cur :: int

definition NewWeighted :: "int \<Rightarrow> Weighted" where
  "NewWeighted n = \<lparr>size = n, cur = 0\<rparr>"

definition Acquire :: "Context \<Rightarrow> int \<Rightarrow> Weighted \<Rightarrow> (error option \<times> Weighted) option" where
  "Acquire ctx n s =
     (case ctxErr ctx of
        Some e \<Rightarrow> Some (Some e, s)
      | None \<Rightarrow>
          if size s - cur s \<ge> n then Some (None, s\<lparr>cur := cur s + n\<rparr>)
          else None)"

definition Release :: "int \<Rightarrow> Weighted \<Rightarrow> Weighted" where
  "Release n s = s\<lparr>cur := cur s - n\<rparr>"

text \<open>
  The state \<open>throttlingTransport.RoundTrip\<close> acts on: the two package-level gauges (a
  Prometheus gauge is a \<open>float64\<close> moved by exactly one at a time, modelled as an
  integer), the semaphore, the delegate's world, the requests handed to the delegate so
  far, and the error log (cache key and error of each entry).
\<close>

record ('s, 'w) throttleState =
  pendingOutboundConnectionsGauge :: int
  outboundConcurrencyGauge :: int
  sem :: 's
  delegateWorld :: 'w
  delegateCalls :: "Request list"
  errorLog :: "(string \<times> error) list"

text \<open>
  \<open>throttlingTransport.RoundTrip\<close>. The semaphore's operations and the delegate are the
  fields of the transport. The two deferred calls run after the delegate has returned, last
  deferred first: the concurrency gauge is decremented, then the weight is released.
\<close>

definition throttlingTransport_RoundTrip ::
  "(Context \<Rightarrow> int \<Rightarrow> 's \<Rightarrow> (error option \<times> 's) option) \<Rightarrow> (int \<Rightarrow> 's \<Rightarrow> 's) \<Rightarrow>
   'w RoundTripper \<Rightarrow> Request \<Rightarrow> ('s, 'w) throttleState \<Rightarrow>
   (RoundTripResult \<times> ('s, 'w) throttleState) option" where
  "throttlingTransport_RoundTrip acquire release delegate req st =
     (let st1 = st\<lparr>pendingOutboundConnectionsGauge := pendingOutboundConnectionsGauge st + 1\<rparr>
      in case acquire Background 1 (sem st1) of
           None \<Rightarrow> None
         | Some (Some err, s') \<Rightarrow>
             Some ((None, Some err),
                   st1\<lparr>sem := s', errorLog := errorLog st1 @ [(URL_String req, err)]\<rparr>)
         | Some (None, s') \<Rightarrow>
             (let st2 = st1\<lparr>sem := s'\<rparr>;
                  st3 = st2\<lparr>pendingOutboundConnectionsGauge :=
                              pendingOutboundConnectionsGauge st2 - 1\<rparr>;
                  st4 = st3\<lparr>outboundConcurrencyGauge := outboundConcurrencyGauge st3 + 1\<rparr>;
                  (res, w') = delegate req (delegateWorld st4);
                  st5 = st4\<lparr>delegateWorld := w', delegateCalls := delegateCalls st4 @ [req]\<rparr>;
                  st6 = st5\<lparr>outboundConcurrencyGauge := outboundConcurrencyGauge st5 - 1\<rparr>;
                  st7 = st6\<lparr>sem := release 1 (sem st6)\<rparr>
              in Some (res, st7)))"



text \<open>
  A semaphore whose \<open>Acquire\<close> fails whatever the context, standing for an acquisition
  that fails; and the concrete values used to run the transport below.
\<close>

definition failingAcquire :: "Context \<Rightarrow> int \<Rightarrow> Weighted \<Rightarrow> (error option \<times> Weighted) option" where
  "failingAcquire ctx n s = Some (Some (Error ''acquire failed''), s)"

definition canceledRequest :: Request where
  "canceledRequest =
     \<lparr>Method = ''GET'', URL_Path = ''/repos/o/r'', URL_String = ''https://api.github.com/repos/o/r'',
      reqHeader = Map.empty, reqContext = Cancelable (Some (Error ''context canceled''))\<rparr>"

definition okResponse :: Response where
  "okResponse = \<lparr>StatusCode = 200, respHeader = Map.empty, Body = ''{}''\<rparr>"

definition okDelegate :: "unit RoundTripper" where
  "okDelegate req w = ((Some okResponse, None), w)"

definition idleThrottle :: "(Weighted, unit) throttleState" where
  "idleThrottle =
     \<lparr>pendingOutboundConnectionsGauge = 0, outboundConcurrencyGauge = 0,
      sem = NewWeighted 1, delegateWorld = (), delegateCalls = [], errorLog = []\<rparr>"


section \<open>The upstream policy transport\<close>

text \<open>
  \<open>strconv.Itoa\<close>: the decimal form of an integer. Go's \<open>int\<close> has 64 bits on the
  platforms the proxy runs on, so the conversions \<open>int(time.Now().Unix())\<close> and of the
  status code do not change the value.
\<close>

definition digitByte :: "nat \<Rightarrow> char" where
  "digitByte d = ''0123456789'' ! d"

fun natDigits :: "nat \<Rightarrow> string" where
  "natDigits n = (if n < 10 then [digitByte n] else natDigits (n div 10) @ [digitByte (n mod 10)])"

definition Itoa :: "int \<Rightarrow> string" where
  "Itoa i = (if i < 0 then CHR ''-'' # natDigits (nat (- i)) else natDigits (nat i))"

text \<open>
  A \<open>time.Time\<close> is an instant, counted in nanoseconds since the Unix epoch; \<open>Unix\<close> is
  its number of whole seconds, \<open>Sub\<close> the duration between two instants (Go saturates it
  at the bounds of \<open>int64\<close>, some 292 years, which is not modelled) and \<open>After\<close> the
  comparison of instants. The clock is a function of the number of readings taken so far:
  the \<open>k\<close>-th call of \<open>time.Now\<close> returns \<open>now k\<close>.
\<close>

type_synonym Time = int

definition Unix :: "Time \<Rightarrow> int" where
  "Unix t = t div 1000000000"

definition Sub :: "Time \<Rightarrow> Time \<Rightarrow> int" where
  "Sub t u = t - u"

definition After :: "Time \<Rightarrow> Time \<Rightarrow> bool" where
  "After t u = (t > u)"

text \<open>
  The calls into \<open>ghmetrics\<close>, recorded with their arguments in the order they are made
  (the round-trip time as a duration, where the code passes its number of seconds).
\<close>

datatype metric =
    RequestTimeoutMetrics string string string Time Time
  | GitHubTokenMetrics string string Header Time Time
  | GitHubRequestMetrics string string string string int

record 'w upstreamState =
  clockReadings :: nat
  metrics :: "metric list"
  warnLog :: "(string \<times> error) list"
  upstreamWorld :: 'w
  upstreamCalls :: "Request list"

datatype panic = NilPointerDereference

definition isGraphQL :: "string \<Rightarrow> bool" where
  "isGraphQL p = (HasPrefix p ''graphql'' \<or> HasPrefix p ''/graphql'')"

text \<open>
  \<open>upstreamTransport.RoundTrip\<close>. The hasher and the delegate are the fields of the
  transport and \<open>now\<close> is the clock. A delegate that returns neither a response nor an
  error makes \<open>resp.StatusCode\<close> dereference \<open>nil\<close>: the call panics. Responses carry
  an allocated header map, as those of \<open>net/http\<close> do.
\<close>

definition upstreamTransport_RoundTrip ::
  "(Request \<Rightarrow> string) \<Rightarrow> (nat \<Rightarrow> Time) \<Rightarrow> 'w RoundTripper \<Rightarrow> Request \<Rightarrow> 'w upstreamState \<Rightarrow>
   (panic + RoundTripResult) \<times> 'w upstreamState" where
  "upstreamTransport_RoundTrip hasher now delegate req st =
     (let etag = Get (reqHeader req) ''if-none-match'';
          val = Get (reqHeader req) TokenBudgetIdentifierHeader;
          tokenBudgetName = (if val \<noteq> [] then val else hasher req);
          reqStartTime = now (clockReadings st);
          st1 = st\<lparr>clockReadings := Suc (clockReadings st)\<rparr>;
          ((resp, err), w') = delegate req (upstreamWorld st1);
          st2 = st1\<lparr>upstreamWorld := w', upstreamCalls := upstreamCalls st1 @ [req]\<rparr>
      in case err of
           Some e \<Rightarrow>
             (let endTime = now (clockReadings st2);
                  st3 = st2\<lparr>clockReadings := Suc (clockReadings st2),
                            metrics := metrics st2 @
                              [RequestTimeoutMetrics tokenBudgetName (URL_Path req)
                                 (Get (reqHeader req) ''User-Agent'') reqStartTime endTime],
                            warnLog := warnLog st2 @ [(URL_String req, e)]\<rparr>
              in (Inr (None, Some e), st3))
         | None \<Rightarrow>
             (let responseTime = now (clockReadings st2);
                  st3 = st2\<lparr>clockReadings := Suc (clockReadings st2)\<rparr>;
                  roundTripTime = Sub responseTime reqStartTime
              in case resp of
                   None \<Rightarrow> (Inl NilPointerDereference, st3)
                 | Some r \<Rightarrow>
                     (let (h1, st4) =
                            (if StatusCode r \<ge> 400
                             then (Set (respHeader r) ''Cache-Control'' ''no-store'', st3)
                             else (let h = Set (respHeader r) ''Cache-Control'' ''no-cache''
                                   in if StatusCode r \<noteq> 304
                                      then (Set h cacheEntryCreationDateHeader
                                              (Itoa (Unix (now (clockReadings st3)))),
                                            st3\<lparr>clockReadings := Suc (clockReadings st3)\<rparr>)
                                      else (h, st3)));
                          h2 = (if etag \<noteq> [] then Set h1 ''X-Conditional-Request'' etag else h1);
                          graphql = isGraphQL (URL_Path req);
                          h3 = (if graphql then Set h2 ''Cache-Control'' ''no-store'' else h2);
                          apiVersion = (if graphql then ''v4'' else ''v3'');
                          st5 = st4\<lparr>metrics := metrics st4 @
                                  [GitHubTokenMetrics tokenBudgetName apiVersion h3
                                     reqStartTime responseTime,
                                   GitHubRequestMetrics tokenBudgetName (URL_Path req)
                                     (Itoa (StatusCode r)) (Get (reqHeader req) ''User-Agent'')
                                     roundTripTime]\<rparr>
                      in (Inr (Some (r\<lparr>respHeader := h3\<rparr>), None), st5))))"

text \<open>Concrete values used to run the policy transport below.\<close>

definition apiRequest :: "string \<Rightarrow> Request" where
  "apiRequest p =
     \<lparr>Method = ''GET'', URL_Path = p, URL_String = ''https://api.github.com'' @ p,
      reqHeader = Map.empty, reqContext = Background\<rparr>"

definition respond :: "Response \<Rightarrow> unit RoundTripper" where
  "respond r req w = ((Some r, None), w)"

definition failWith :: "error \<Rightarrow> unit RoundTripper" where
  "failWith e req w = ((None, Some e), w)"

definition fixedHasher :: "Request \<Rightarrow> string" where
  "fixedHasher req = ''token-hash''"

definition fixedClock :: "nat \<Rightarrow> Time" where
  "fixedClock k = 1700000000000000000"

definition freshUpstream :: "unit upstreamState" where
  "freshUpstream =
     \<lparr>clockReadings = 0, metrics = [], warnLog = [], upstreamWorld = (), upstreamCalls = []\<rparr>"

definition stampedResponse :: "int \<Rightarrow> Response" where
  "stampedResponse code =
     \<lparr>StatusCode = code, respHeader = [''X-Prow-Request-Date'' \<mapsto> [''1600000000'']],
      Body = ''''\<rparr>"

definition plainResponse :: "int \<Rightarrow> Response" where
  "plainResponse code = \<lparr>StatusCode = code, respHeader = Map.empty, Body = ''''\<rparr>"

section \<open>The file system\<close>

text \<open>
  A path is the list of its components: \<open>path.Join\<close> is concatenation and
  \<open>filepath.Dir\<close> drops the last component. The file system is a tree: a file with its
  bytes, or a directory with its entries by name. \<open>lookup\<close> follows a path from the root.
\<close>

type_synonym path = "string list"

datatype fsnode = File string | Dir "(string \<times> fsnode) list"

fun isDir :: "fsnode \<Rightarrow> bool" where
  "isDir (Dir es) = True"
| "isDir (File b) = False"

fun lookup :: "fsnode \<Rightarrow> path \<Rightarrow> fsnode option" where
  "lookup n [] = Some n"
| "lookup (File b) (c # cs) = None"
| "lookup (Dir es) (c # cs) = (case map_of es c of None \<Rightarrow> None | Some n \<Rightarrow> lookup n cs)"

fun setEntry :: "string \<Rightarrow> fsnode \<Rightarrow> (string \<times> fsnode) list \<Rightarrow> (string \<times> fsnode) list" where
  "setEntry c n [] = [(c, n)]"
| "setEntry c n (e # es) = (if fst e = c then (c, n) # es else e # setEntry c n es)"

text \<open>
  \<open>os.RemoveAll\<close> removes everything it can and reports the first error it met. The
  operating system refuses to remove the files and directories whose paths are in \<open>U\<close>.
  \<open>residue U p n\<close> is what is left of the node \<open>n\<close> at the path \<open>p\<close>: the entries of a
  directory are removed first, each as far as it goes; a file, or a directory that has
  become empty, disappears unless it is refused; a directory that keeps an entry stays.
  \<open>None\<close> says that nothing is left.
\<close>

fun residue :: "path set \<Rightarrow> path \<Rightarrow> fsnode \<Rightarrow> fsnode option"
  and residues :: "path set \<Rightarrow> path \<Rightarrow> (string \<times> fsnode) list \<Rightarrow> (string \<times> fsnode) list" where
  "residue U p (File b) = (if p \<in> U then Some (File b) else None)"
| "residue U p (Dir es) =
     (let es' = residues U p es
      in if es' = [] \<and> p \<notin> U then None else Some (Dir es'))"
| "residues U p [] = []"
| "residues U p (e # es) =
     (case residue U (p @ [fst e]) (snd e) of
        None \<Rightarrow> residues U p es
      | Some n' \<Rightarrow> (fst e, n') # residues U p es)"

text \<open>
  \<open>removeAt U pre p t\<close> removes, as far as it goes, what is at the path \<open>p\<close> below the
  node \<open>t\<close>, which is itself at the path \<open>pre\<close>; a path that does not exist leaves the
  tree as it is.
\<close>

fun removeAt :: "path set \<Rightarrow> path \<Rightarrow> path \<Rightarrow> fsnode \<Rightarrow> fsnode" where
  "removeAt U pre [] n = n"
| "removeAt U pre (c # cs) (File b) = File b"
| "removeAt U pre [c] (Dir es) =
     Dir (case map_of es c of
            None \<Rightarrow> es
          | Some n \<Rightarrow>
              (case residue U (pre @ [c]) n of
                 None \<Rightarrow> filter (\<lambda>e. fst e \<noteq> c) es
               | Some n' \<Rightarrow> setEntry c n' es))"
| "removeAt U pre (c # c' # cs) (Dir es) =
     Dir (map (\<lambda>e. if fst e = c then (fst e, removeAt U (pre @ [c]) (c' # cs) (snd e)) else e)
            es)"

text \<open>
  \<open>os.MkdirAll\<close> creates the directory and the missing parents, and fails when a component
  of the path exists and is a file. \<open>ioutil.WriteFile\<close> creates or replaces the file, and
  fails when its parent is not an existing directory or the path is a directory.
  The value \<open>None\<close> is the failure; the tree is then unchanged.
\<close>

fun mkdirAll :: "path \<Rightarrow> fsnode \<Rightarrow> fsnode option" where
  "mkdirAll p (File b) = None"
| "mkdirAll [] (Dir es) = Some (Dir es)"
| "mkdirAll (c # cs) (Dir es) =
     (case mkdirAll cs (case map_of es c of None \<Rightarrow> Dir [] | Some n \<Rightarrow> n) of
        None \<Rightarrow> None
      | Some n' \<Rightarrow> Some (Dir (setEntry c n' es)))"

fun writeFile :: "path \<Rightarrow> string \<Rightarrow> fsnode \<Rightarrow> fsnode option" where
  "writeFile [] b n = None"
| "writeFile (c # cs) b (File x) = None"
| "writeFile [c] b (Dir es) =
     (case map_of es c of
        Some (Dir ds) \<Rightarrow> None
      | _ \<Rightarrow> Some (Dir (setEntry c (File b) es)))"
| "writeFile (c # c' # cs) b (Dir es) =
     (case map_of es c of
        None \<Rightarrow> None
      | Some n \<Rightarrow>
          (case writeFile (c' # cs) b n of
             None \<Rightarrow> None
           | Some n' \<Rightarrow> Some (Dir (setEntry c n' es))))"

text \<open>
  The world of the functions that touch the disk: the tree, the paths of the files and
  directories that the operating system refuses to remove, the number of readings taken
  from the injected clock, and the log. \<open>RemoveAll\<close> returns an error exactly when
  something is left at the path.
\<close>

datatype logEntry =
    ReadDirFailed error
  | DeserializeFailed path error
  | CleaningUp path Time
  | DeleteFailed path error

record world =
  tree :: fsnode
  undeletable :: "path set"
  nowCalls :: nat
  pruneLog :: "logEntry list"

definition ReadDir :: "path \<Rightarrow> world \<Rightarrow> (string \<times> bool) list \<times> error option" where
  "ReadDir p w =
     (case lookup (tree w) p of
        Some (Dir es) \<Rightarrow> (map (\<lambda>e. (fst e, isDir (snd e))) es, None)
      | Some (File b) \<Rightarrow> ([], Some (Error ''not a directory''))
      | None \<Rightarrow> ([], Some (Error ''no such file or directory'')))"

definition ReadFile :: "path \<Rightarrow> world \<Rightarrow> error + string" where
  "ReadFile p w =
     (case lookup (tree w) p of
        Some (File b) \<Rightarrow> Inr b
      | Some (Dir es) \<Rightarrow> Inl (Error ''is a directory'')
      | None \<Rightarrow> Inl (Error ''no such file or directory''))"

definition RemoveAll :: "path \<Rightarrow> world \<Rightarrow> error option \<times> world" where
  "RemoveAll p w =
     (let t = removeAt (undeletable w) [] p (tree w)
      in (if lookup t p = None then None else Some (Error ''operation not permitted''),
          w\<lparr>tree := t\<rparr>))"

definition MkdirAll :: "path \<Rightarrow> world \<Rightarrow> error option \<times> world" where
  "MkdirAll p w =
     (case mkdirAll p (tree w) of
        None \<Rightarrow> (Some (Error ''not a directory''), w)
      | Some t \<Rightarrow> (None, w\<lparr>tree := t\<rparr>))"

definition WriteFile :: "path \<Rightarrow> string \<Rightarrow> world \<Rightarrow> error option \<times> world" where
  "WriteFile p b w =
     (case writeFile p b (tree w) of
        None \<Rightarrow> (Some (Error ''cannot write file''), w)
      | Some t \<Rightarrow> (None, w\<lparr>tree := t\<rparr>))"

section \<open>Partition metadata and the pruner\<close>

definition cachePartitionMetadataFileName :: string where
  "cachePartitionMetadataFileName = ''.cache_metadata.json''"

record cachePartitionMetadata =
  ExpiresAt :: Time

text \<open>
  One iteration of the inner loop of \<open>Prune\<close>, for one entry of the listing of \<open>base\<close>.
  \<open>unmarshal\<close> is \<open>json.Unmarshal\<close> into a \<open>cachePartitionMetadata\<close> and \<open>now\<close> the
  injected clock, read once for each entry whose metadata was deserialized.
\<close>

definition pruneCandidate ::
  "(string \<Rightarrow> error + cachePartitionMetadata) \<Rightarrow> (nat \<Rightarrow> Time) \<Rightarrow> path \<Rightarrow>
   string \<times> bool \<Rightarrow> world \<Rightarrow> world" where
  "pruneCandidate unmarshal now base cachePartitionCandidate w =
     (if \<not> snd cachePartitionCandidate then w
      else
        (let metadataPath = base @ [fst cachePartitionCandidate, cachePartitionMetadataFileName]
         in case ReadFile metadataPath w of
              Inl err \<Rightarrow> w
            | Inr raw \<Rightarrow>
                (case unmarshal raw of
                   Inl err \<Rightarrow> w\<lparr>pruneLog := pruneLog w @ [DeserializeFailed metadataPath err]\<rparr>
                 | Inr metadata \<Rightarrow>
                     (let t = now (nowCalls w);
                          w1 = w\<lparr>nowCalls := Suc (nowCalls w)\<rparr>
                      in if After (ExpiresAt metadata) t then w1
                         else
                           (let paritionPath = butlast metadataPath;
                                w2 = w1\<lparr>pruneLog := pruneLog w1 @
                                        [CleaningUp paritionPath (ExpiresAt metadata)]\<rparr>
                            in case RemoveAll paritionPath w2 of
                                 (Some err, w3) \<Rightarrow>
                                   w3\<lparr>pruneLog := pruneLog w3 @ [DeleteFailed paritionPath err]\<rparr>
                               | (None, w3) \<Rightarrow> w3)))))"

text \<open>
  The body of the outer loop, for one of the two roots: the listing is read once, an error
  of \<open>os.ReadDir\<close> is logged and the entries it returned are processed all the same.
\<close>

definition pruneDir ::
  "(string \<Rightarrow> error + cachePartitionMetadata) \<Rightarrow> (nat \<Rightarrow> Time) \<Rightarrow> path \<Rightarrow>
   string \<Rightarrow> world \<Rightarrow> world" where
  "pruneDir unmarshal now baseDir dir w =
     (let base = baseDir @ [dir];
          (cachePartitionCandidates, err) = ReadDir base w;
          w1 = (case err of
                  None \<Rightarrow> w
                | Some e \<Rightarrow> w\<lparr>pruneLog := pruneLog w @ [ReadDirFailed e]\<rparr>)
      in foldl (\<lambda>acc c. pruneCandidate unmarshal now base c acc) w1 cachePartitionCandidates)"

definition Prune ::
  "(string \<Rightarrow> error + cachePartitionMetadata) \<Rightarrow> path \<Rightarrow> (nat \<Rightarrow> Time) \<Rightarrow> world \<Rightarrow> world" where
  "Prune unmarshal baseDir now w =
     foldl (\<lambda>acc dir. pruneDir unmarshal now baseDir dir acc) w [''data'', ''temp'']"

text \<open>
  A cache directory to run the pruner on: under \<open>data\<close> a partition with malformed
  metadata, an expired partition with an entry that the operating system refuses to
  remove, an expired one, one that expires later and one without metadata; under \<open>temp\<close>
  an expired one. The decoder stands for \<open>json.Unmarshal\<close>; the injected clock moves on
  during the sweep.
\<close>

definition testUnmarshal :: "string \<Rightarrow> error + cachePartitionMetadata" where
  "testUnmarshal raw =
     (if raw = ''old'' then Inr \<lparr>ExpiresAt = 100\<rparr>
      else if raw = ''new'' then Inr \<lparr>ExpiresAt = 300\<rparr>
      else Inl (Error ''invalid character''))"

definition testClock :: "nat \<Rightarrow> Time" where
  "testClock k = (if k < 2 then 200 else 210)"

definition testWorld :: world where
  "testWorld =
     \<lparr>tree = Dir [(''cache'', Dir
        [(''data'', Dir
           [(''bad'', Dir [(''.cache_metadata.json'', File ''garbage'')]),
            (''locked'', Dir [(''.cache_metadata.json'', File ''old''), (''entry'', File ''body'')]),
            (''old'', Dir [(''.cache_metadata.json'', File ''old''), (''entry'', File ''body'')]),
            (''new'', Dir [(''.cache_metadata.json'', File ''new'')]),
            (''nometa'', Dir [])]),
         (''temp'', Dir
           [(''old'', Dir [(''.cache_metadata.json'', File ''old'')])])])],
      undeletable = {[''cache'', ''data'', ''locked'', ''entry'']},
      nowCalls = 0,
      pruneLog = []\<rparr>"

text \<open>
  A cache directory with one partition, expired at the reading of a clock that stands
  still, holding an entry that the operating system refuses to remove.
\<close>

definition stoppedClock :: "nat \<Rightarrow> Time" where
  "stoppedClock k = 200"

definition lockedWorld :: world where
  "lockedWorld =
     \<lparr>tree = Dir [(''cache'', Dir
        [(''data'', Dir
           [(''locked'', Dir [(''.cache_metadata.json'', File ''old''), (''entry'', File ''body'')])]),
         (''temp'', Dir [])])],
      undeletable = {[''cache'', ''data'', ''locked'', ''entry'']},
      nowCalls = 0,
      pruneLog = []\<rparr>"

text \<open>
  \<open>writecachePartitionMetadata\<close>. \<open>marshal\<close> is \<open>json.Marshal\<close> of the metadata record.
  Without an expiry nothing is written. Otherwise the serialized record is written under
  both directories; a directory that cannot be created does not stop the attempt to write
  the file, and the errors met are returned together (\<open>nil\<close> when there are none).
\<close>

definition pathString :: "path \<Rightarrow> string" where
  "pathString p = concat (map (\<lambda>c. CHR ''/'' # c) p)"

definition NewAggregate :: "error list \<Rightarrow> error option" where
  "NewAggregate errs = (if errs = [] then None else Some (Aggregate errs))"

definition writeMetadataTo :: "string \<Rightarrow> error list \<times> world \<Rightarrow> path \<Rightarrow> error list \<times> world" where
  "writeMetadataTo serialized acc destBase =
     (let (errs, w) = acc;
          (e1, w1) = MkdirAll destBase w;
          errs1 = (case e1 of
                     None \<Rightarrow> errs
                   | Some err \<Rightarrow>
                       errs @ [Wrapped (''failed to create dir '' @ pathString destBase) err]);
          dest = destBase @ [cachePartitionMetadataFileName];
          (e2, w2) = WriteFile dest serialized w1;
          errs2 = (case e2 of
                     None \<Rightarrow> errs1
                   | Some err \<Rightarrow> errs1 @ [Wrapped (''failed to write '' @ pathString dest) err])
      in (errs2, w2))"

definition writecachePartitionMetadata ::
  "(cachePartitionMetadata \<Rightarrow> error + string) \<Rightarrow> path \<Rightarrow> path \<Rightarrow> Time option \<Rightarrow> world \<Rightarrow>
   error option \<times> world" where
  "writecachePartitionMetadata marshal basePath tempDir expiresAt w =
     (case expiresAt of
        None \<Rightarrow> (None, w)
      | Some t \<Rightarrow>
          (case marshal \<lparr>ExpiresAt = t\<rparr> of
             Inl err \<Rightarrow> (Some (Wrapped ''failed to serialize'' err), w)
           | Inr serialized \<Rightarrow>
               (let (errs, w') = foldl (writeMetadataTo serialized) ([], w) [basePath, tempDir]
                in (NewAggregate errs, w'))))"

section \<open>The metadata file\<close>

text \<open>
  Modelled from the spec: the codec of the metadata file, \<open>json.Marshal\<close> and
  \<open>json.Unmarshal\<close> of a record whose field has the type \<open>metav1.Time\<close>. Neither the
  type nor the libraries are among the sources; the spec gives the file as the JSON object
  \<open>{"expires_at": "<RFC3339 timestamp>"}\<close>. The definitions of this section are that
  codec, from the calendar up.

  The proleptic Gregorian calendar. Days are counted from the first of January of the year
  0; \<open>daysBeforeYear y\<close> is the first day of the year \<open>y\<close>. \<open>civilFromDays\<close> finds the
  year by stepping up from a year that is not too late, then the month and the day of the
  month in the list of the month lengths of that year.
\<close>

definition isLeap :: "int \<Rightarrow> bool" where
  "isLeap y = (y mod 4 = 0 \<and> (y mod 100 \<noteq> 0 \<or> y mod 400 = 0))"

definition daysBeforeYear :: "int \<Rightarrow> int" where
  "daysBeforeYear y = 365 * y + (y + 3) div 4 - (y + 99) div 100 + (y + 399) div 400"

definition monthLengths :: "int \<Rightarrow> int list" where
  "monthLengths y = [31, if isLeap y then 29 else 28, 31, 30, 31, 30, 31, 31, 30, 31, 30, 31]"

function yearFrom :: "int \<Rightarrow> int \<Rightarrow> int" where
  "yearFrom d y = (if d < daysBeforeYear (y + 1) then y else yearFrom d (y + 1))"
  by pat_completeness auto
termination
  by (relation "measure (\<lambda>(d, y). nat (d - daysBeforeYear (y + 1) + 1))")
    (auto simp: daysBeforeYear_def)

fun monthFrom :: "int list \<Rightarrow> int \<Rightarrow> nat \<Rightarrow> nat \<times> int" where
  "monthFrom [] doy m = (m, doy + 1)"
| "monthFrom (l # ls) doy m = (if doy < l then (m, doy + 1) else monthFrom ls (doy - l) (Suc m))"

definition civilFromDays :: "int \<Rightarrow> int \<times> nat \<times> int" where
  "civilFromDays d =
     (let y = yearFrom d (if d \<ge> 0 then d div 366 else d div 365 - 1);
          (m, dd) = monthFrom (monthLengths y) (d - daysBeforeYear y) 1
      in (y, m, dd))"

definition daysFromCivil :: "int \<Rightarrow> nat \<Rightarrow> int \<Rightarrow> int" where
  "daysFromCivil y m dd = daysBeforeYear y + sum_list (take (m - 1) (monthLengths y)) + (dd - 1)"

definition unixEpochDays :: int where
  "unixEpochDays = 719528"

text \<open>
  Modelled from the spec: the RFC3339 timestamp of an instant, as Go's \<open>time\<close> layout
  \<open>RFC3339\<close> writes it in UTC: the year with at least four
  digits (and a minus sign before the year 0), every other field with two, the fraction of
  the second dropped, the zone written \<open>Z\<close>.
\<close>

definition pad2 :: "nat \<Rightarrow> string" where
  "pad2 n = [digitByte (n div 10), digitByte (n mod 10)]"

definition pad4 :: "nat \<Rightarrow> string" where
  "pad4 n =
     (if n < 10000
      then [digitByte (n div 1000), digitByte (n div 100 mod 10), digitByte (n div 10 mod 10),
            digitByte (n mod 10)]
      else natDigits n)"

definition formatYear :: "int \<Rightarrow> string" where
  "formatYear y = (if y < 0 then CHR ''-'' # pad4 (nat (- y)) else pad4 (nat y))"

definition formatRFC3339 :: "Time \<Rightarrow> string" where
  "formatRFC3339 t =
     (let sec = t div 1000000000;
          (y, m, dd) = civilFromDays (sec div 86400 + unixEpochDays);
          r = sec mod 86400
      in formatYear y @ ''-'' @ pad2 m @ ''-'' @ pad2 (nat dd) @ ''T'' @
         pad2 (nat (r div 3600)) @ '':'' @ pad2 (nat (r mod 3600 div 60)) @ '':'' @
         pad2 (nat (r mod 60)) @ ''Z'')"

text \<open>
  Modelled from the spec: reading an RFC3339 timestamp back, as \<open>time.Parse\<close> does with
  the layout \<open>RFC3339\<close>, for the form written above: four digits of year, two of every other field, the separators, and
  \<open>Z\<close>; the month, the day of the month, the hour, the minute and the second must be in
  range. \<open>time.Parse\<close> accepts a fraction of the second and a numeric zone offset as well,
  which the metadata writer never produces; they are an error here.
\<close>

definition digitVal :: "char \<Rightarrow> nat option" where
  "digitVal c =
     map_of [(CHR ''0'', 0), (CHR ''1'', 1), (CHR ''2'', 2), (CHR ''3'', 3), (CHR ''4'', 4),
             (CHR ''5'', 5), (CHR ''6'', 6), (CHR ''7'', 7), (CHR ''8'', 8), (CHR ''9'', 9)] c"

fun digitsVal :: "nat \<Rightarrow> string \<Rightarrow> nat option" where
  "digitsVal acc [] = Some acc"
| "digitsVal acc (c # cs) =
     (case digitVal c of None \<Rightarrow> None | Some v \<Rightarrow> digitsVal (10 * acc + v) cs)"

definition parseRFC3339 :: "string \<Rightarrow> error + Time" where
  "parseRFC3339 s =
     (if length s \<noteq> 20 \<or> s ! 4 \<noteq> CHR ''-'' \<or> s ! 7 \<noteq> CHR ''-'' \<or> s ! 10 \<noteq> CHR ''T''
         \<or> s ! 13 \<noteq> CHR '':'' \<or> s ! 16 \<noteq> CHR '':'' \<or> s ! 19 \<noteq> CHR ''Z''
      then Inl (Error ''parsing time: cannot parse'')
      else
        (case (digitsVal 0 (take 4 s), digitsVal 0 (take 2 (drop 5 s)),
               digitsVal 0 (take 2 (drop 8 s)), digitsVal 0 (take 2 (drop 11 s)),
               digitsVal 0 (take 2 (drop 14 s)), digitsVal 0 (take 2 (drop 17 s))) of
           (Some y, Some m, Some dd, Some h, Some mi, Some se) \<Rightarrow>
             if m < 1 \<or> m > 12 \<or> dd < 1 \<or> int dd > monthLengths (int y) ! (m - 1)
                \<or> h \<ge> 24 \<or> mi \<ge> 60 \<or> se \<ge> 60
             then Inl (Error ''parsing time: out of range'')
             else Inr (((daysFromCivil (int y) m (int dd) - unixEpochDays) * 86400
                        + int h * 3600 + int mi * 60 + int se) * 1000000000)
         | _ \<Rightarrow> Inl (Error ''parsing time: cannot parse'')))"

text \<open>
  Modelled from the spec: the JSON form of the partition metadata, the object
  \<open>{"expires_at": "<RFC3339 timestamp>"}\<close>. The type \<open>metav1.Time\<close> writes the zero
  time (the first instant of the year 1) as \<open>null\<close> and any other
  time in UTC to the second. The decoder reads the compact form the encoder writes;
  \<open>json.Unmarshal\<close> accepts other spellings of the same object too.
\<close>

definition dquote :: char where
  "dquote = CHR 0x22"

definition zeroTime :: Time where
  "zeroTime = - 62135596800 * 1000000000"

definition marshalTime :: "Time \<Rightarrow> string" where
  "marshalTime t = (if t = zeroTime then ''null'' else dquote # formatRFC3339 t @ [dquote])"

definition unmarshalTime :: "string \<Rightarrow> error + Time" where
  "unmarshalTime b =
     (if b = ''null'' then Inr zeroTime
      else if length b \<ge> 2 \<and> hd b = dquote \<and> last b = dquote
      then parseRFC3339 (butlast (tl b))
      else Inl (Error ''json: cannot unmarshal into Go value of type string''))"

definition metadataPrefix :: string where
  "metadataPrefix = CHR ''{'' # dquote # ''expires_at'' @ [dquote, CHR '':'']"

definition marshalMetadata :: "cachePartitionMetadata \<Rightarrow> error + string" where
  "marshalMetadata metadata = Inr (metadataPrefix @ marshalTime (ExpiresAt metadata) @ ''}'')"

definition unmarshalMetadata :: "string \<Rightarrow> error + cachePartitionMetadata" where
  "unmarshalMetadata raw =
     (if HasPrefix raw metadataPrefix \<and> length raw > length metadataPrefix \<and> last raw = CHR ''}''
      then (case unmarshalTime (butlast (drop (length metadataPrefix) raw)) of
              Inl err \<Rightarrow> Inl err
            | Inr t \<Rightarrow> Inr \<lparr>ExpiresAt = t\<rparr>)
      else Inl (Error ''invalid character''))"

text \<open>
  Two expiry times: one in 2023, with a fraction of a second, and the last second of the
  year 9999 in the zone one hour west of Greenwich, which is in the year 10000 in UTC.
\<close>

definition nearExpiry :: Time where
  "nearExpiry = 1700000000 * 1000000000 + 5"

definition farExpiry :: Time where
  "farExpiry = 253402304399 * 1000000000"

definition emptyDisk :: world where
  "emptyDisk = \<lparr>tree = Dir [], undeletable = {}, nowCalls = 0, pruneLog = []\<rparr>"

section \<open>Facts about strings and headers\<close>

lemma HasPrefix_iff: "HasPrefix s p \<longleftrightarrow> (\<exists>post. s = p @ post)"
  by (induction s p rule: HasPrefix.induct) auto

lemma Contains_iff: "Contains s sub \<longleftrightarrow> (\<exists>pre post. s = pre @ sub @ post)"
proof (induction s)
  case Nil
  show ?case by auto
next
  case (Cons c cs)
  show ?case
  proof
    assume "Contains (c # cs) sub"
    then consider "HasPrefix (c # cs) sub" | "Contains cs sub" by auto
    then show "\<exists>pre post. c # cs = pre @ sub @ post"
    proof cases
      case 1
      then obtain post where "c # cs = sub @ post" by (auto simp: HasPrefix_iff)
      then have "c # cs = [] @ sub @ post" by simp
      then show ?thesis by blast
    next
      case 2
      then obtain pre post where "cs = pre @ sub @ post" using Cons.IH by auto
      then have "c # cs = (c # pre) @ sub @ post" by simp
      then show ?thesis by blast
    qed
  next
    assume "\<exists>pre post. c # cs = pre @ sub @ post"
    then obtain pre post where e: "c # cs = pre @ sub @ post" by blast
    show "Contains (c # cs) sub"
    proof (cases pre)
      case Nil
      with e have "HasPrefix (c # cs) sub" by (auto simp: HasPrefix_iff)
      then show ?thesis by simp
    next
      case (Cons a pre')
      with e have "cs = pre' @ sub @ post" by simp
      then have "Contains cs sub" using Cons.IH by blast
      then show ?thesis by simp
    qed
  qed
qed

lemma canon_Status: "CanonicalMIMEHeaderKey ''Status'' = ''Status''"
  by code_simp

lemma canon_Cache_Control: "CanonicalMIMEHeaderKey ''Cache-Control'' = ''Cache-Control''"
  by code_simp

lemma canon_X_Conditional_Request:
  "CanonicalMIMEHeaderKey ''X-Conditional-Request'' = ''X-Conditional-Request''"
  by code_simp

lemma canon_creation_date:
  "CanonicalMIMEHeaderKey cacheEntryCreationDateHeader = ''X-Prow-Request-Date''"
  by code_simp

lemma canon_if_none_match: "CanonicalMIMEHeaderKey ''if-none-match'' = ''If-None-Match''"
  by code_simp

lemma canon_User_Agent: "CanonicalMIMEHeaderKey ''User-Agent'' = ''User-Agent''"
  by code_simp

lemma canon_token_budget:
  "CanonicalMIMEHeaderKey TokenBudgetIdentifierHeader = ''X-Prow-Ghcache-Token-Budget-Identifier''"
  by code_simp

lemmas canon_keys = canon_Status canon_Cache_Control canon_X_Conditional_Request
  canon_creation_date canon_if_none_match canon_User_Agent canon_token_budget

lemma Get_Set_same: "Get (Set h k v) k = v"
  by (simp add: Get_def Set_def)

lemma Get_Set_other:
  "CanonicalMIMEHeaderKey k' \<noteq> CanonicalMIMEHeaderKey k \<Longrightarrow> Get (Set h k v) k' = Get h k'"
  by (simp add: Get_def Set_def)

section \<open>The response classifier\<close>

text \<open>
  Claim C4. \<open>cacheResponseMode\<close> returns one of NO-STORE, REVALIDATED, CHANGED and MISS,
  in this order of precedence: NO-STORE when the \<open>Cache-Control\<close> header (its first value,
  which is what \<open>Get\<close> reads) contains \<open>no-store\<close>; otherwise REVALIDATED when the
  \<open>Status\<close> header contains \<open>304 Not Modified\<close>; otherwise CHANGED when the
  conditional-request marker \<open>X-Conditional-Request\<close> is there (\<open>Get\<close> is not empty);
  otherwise MISS. It never returns ERROR (nor COALESCED). It is a function of the headers
  alone: it reads them and changes nothing.
\<close>

theorem cacheResponseMode_precedence:
  "(cacheResponseMode h = ModeNoStore \<longleftrightarrow>
      (\<exists>pre post. Get h ''Cache-Control'' = pre @ ''no-store'' @ post))
   \<and> (cacheResponseMode h = ModeRevalidated \<longleftrightarrow>
      \<not> (\<exists>pre post. Get h ''Cache-Control'' = pre @ ''no-store'' @ post)
      \<and> (\<exists>pre post. Get h ''Status'' = pre @ ''304 Not Modified'' @ post))
   \<and> (cacheResponseMode h = ModeChanged \<longleftrightarrow>
      \<not> (\<exists>pre post. Get h ''Cache-Control'' = pre @ ''no-store'' @ post)
      \<and> \<not> (\<exists>pre post. Get h ''Status'' = pre @ ''304 Not Modified'' @ post)
      \<and> Get h ''X-Conditional-Request'' \<noteq> [])
   \<and> (cacheResponseMode h = ModeMiss \<longleftrightarrow>
      \<not> (\<exists>pre post. Get h ''Cache-Control'' = pre @ ''no-store'' @ post)
      \<and> \<not> (\<exists>pre post. Get h ''Status'' = pre @ ''304 Not Modified'' @ post)
      \<and> Get h ''X-Conditional-Request'' = [])
   \<and> cacheResponseMode h \<in> {ModeNoStore, ModeRevalidated, ModeChanged, ModeMiss}
   \<and> cacheResponseMode h \<noteq> ModeError \<and> cacheResponseMode h \<noteq> ModeCoalesced"
  unfolding cacheResponseMode_def Contains_iff [symmetric] by simp

theorem cacheResponseMode_precedence_witness:
  "cacheResponseMode
     (Set (Set Map.empty ''Status'' ''304 Not Modified'') ''X-Conditional-Request'' ''abc'')
     = ModeRevalidated
   \<and> cacheResponseMode
     (Set (Set Map.empty ''Cache-Control'' ''private, no-store'') ''Status'' ''304 Not Modified'')
     = ModeNoStore"
  using
    cacheResponseMode_precedence
      [of "Set (Set Map.empty ''Status'' ''304 Not Modified'') ''X-Conditional-Request'' ''abc''"]
    cacheResponseMode_precedence
      [of "Set (Set Map.empty ''Cache-Control'' ''private, no-store'') ''Status'' ''304 Not Modified''"]
  unfolding Contains_iff [symmetric]
  by (simp add: Get_def Set_def canon_keys)

section \<open>The throttling transport\<close>

text \<open>
  Claim C2 says that admission is cancelable through the caller's cancellation signal.
  The transport hands \<open>context.Background()\<close> to \<open>Acquire\<close>, not the context of the
  request: run with the weighted semaphore, a request whose context is already canceled
  is admitted and reaches the delegate when weight is free, and waits without end when
  none is, although \<open>Acquire\<close> under the request's own context would have failed.
\<close>

theorem throttling_ignores_caller_cancellation_counterexample:
  "ctxErr (reqContext canceledRequest) = Some (Error ''context canceled'')
   \<and> throttlingTransport_RoundTrip Acquire Release okDelegate canceledRequest idleThrottle
       = Some ((Some okResponse, None), idleThrottle\<lparr>delegateCalls := [canceledRequest]\<rparr>)
   \<and> Acquire (reqContext canceledRequest) 1 \<lparr>size = 1, cur = 1\<rparr>
       = Some (Some (Error ''context canceled''), \<lparr>size = 1, cur = 1\<rparr>)
   \<and> throttlingTransport_RoundTrip Acquire Release okDelegate canceledRequest
        (idleThrottle\<lparr>sem := \<lparr>size = 1, cur = 1\<rparr>\<rparr>) = None"
  by (simp add: throttlingTransport_RoundTrip_def Acquire_def Release_def okDelegate_def
      canceledRequest_def idleThrottle_def NewWeighted_def)

text \<open>
  Claim C2, as amended. Admission is decided by \<open>Acquire\<close> under the background
  context, whatever the request and its context: if that call blocks, so does the
  transport; if it fails, the transport returns that error and no response, logs it with
  the request's URL as cache key, and the delegate is not invoked (no call is recorded and
  its world is unchanged); if it succeeds, the delegate is invoked once with the request.
  With the weighted semaphore the transport blocks exactly when no weight is free.
\<close>

theorem throttling_admission_uses_background_context:
  "(acquire Background 1 (sem st) = None \<longrightarrow>
      throttlingTransport_RoundTrip acquire release delegate req st = None)
   \<and> (\<forall>e s'. acquire Background 1 (sem st) = Some (Some e, s') \<longrightarrow>
      (\<exists>st'. throttlingTransport_RoundTrip acquire release delegate req st
                = Some ((None, Some e), st')
             \<and> delegateCalls st' = delegateCalls st
             \<and> delegateWorld st' = delegateWorld st
             \<and> errorLog st' = errorLog st @ [(URL_String req, e)]))
   \<and> (\<forall>s'. acquire Background 1 (sem st) = Some (None, s') \<longrightarrow>
      (\<exists>res st'. throttlingTransport_RoundTrip acquire release delegate req st = Some (res, st')
             \<and> (res, delegateWorld st') = delegate req (delegateWorld st)
             \<and> delegateCalls st' = delegateCalls st @ [req]))
   \<and> (throttlingTransport_RoundTrip Acquire Release delegate req st = None
        \<longleftrightarrow> size (sem st) - cur (sem st) < 1)"
  by (auto simp: throttlingTransport_RoundTrip_def Let_def Acquire_def split: prod.splits option.splits)

theorem throttling_admission_uses_background_context_witness:
  "throttlingTransport_RoundTrip failingAcquire Release okDelegate canceledRequest idleThrottle
     = Some ((None, Some (Error ''acquire failed'')),
             idleThrottle\<lparr>pendingOutboundConnectionsGauge := 1,
               errorLog := [(''https://api.github.com/repos/o/r'', Error ''acquire failed'')]\<rparr>)"
  using throttling_admission_uses_background_context
    [of failingAcquire idleThrottle Release okDelegate canceledRequest]
  by (simp add: failingAcquire_def idleThrottle_def canceledRequest_def
      throttlingTransport_RoundTrip_def)








section \<open>The upstream policy transport\<close>

lemma Itoa_fixed: "Itoa (Unix 1700000000000000000) = ''1700000000''"
  by (simp add: Itoa_def Unix_def digitByte_def)

lemma apiRequest_not_graphql:
  "\<not> (HasPrefix (URL_Path (apiRequest ''/repos/o/r'')) ''graphql''
      \<or> HasPrefix (URL_Path (apiRequest ''/repos/o/r'')) ''/graphql'')"
  by (simp add: apiRequest_def)

text \<open>
  Claim C3 says that a response of status 400 or more, or 304, leaves without a
  creation-timestamp header. The transport never removes a header: an upstream response
  of status 404 that already carries \<open>X-Prow-Request-Date\<close> (as the response of another
  instance of this proxy does) leaves with \<open>Cache-Control: no-store\<close> and that header.
\<close>

theorem policy_transport_keeps_upstream_stamp_counterexample:
  "\<not> (HasPrefix (URL_Path (apiRequest ''/repos/o/r'')) ''graphql''
      \<or> HasPrefix (URL_Path (apiRequest ''/repos/o/r'')) ''/graphql'')
   \<and> StatusCode (stampedResponse 404) \<ge> 400
   \<and> fst (upstreamTransport_RoundTrip fixedHasher fixedClock (respond (stampedResponse 404))
            (apiRequest ''/repos/o/r'') freshUpstream)
       = Inr (Some ((stampedResponse 404)
                \<lparr>respHeader := Set (respHeader (stampedResponse 404)) ''Cache-Control'' ''no-store''\<rparr>),
              None)
   \<and> Get (Set (respHeader (stampedResponse 404)) ''Cache-Control'' ''no-store'')
        cacheEntryCreationDateHeader = ''1600000000''"
  by (simp add: upstreamTransport_RoundTrip_def Let_def isGraphQL_def apiRequest_def respond_def
      stampedResponse_def freshUpstream_def Get_def Set_def canon_keys)

text \<open>
  Claim C3, as amended. For a response to a request whose path is not a graphql path:
  with a status of 400 or more it leaves with \<open>Cache-Control: no-store\<close> and its
  creation-timestamp header as upstream sent it (none if upstream sent none); with status
  200 it leaves with \<open>Cache-Control: no-cache\<close> and the creation-timestamp header set to
  the Unix seconds of the clock (its third reading in the call); with status 304 it leaves
  with \<open>Cache-Control: no-cache\<close> and its creation-timestamp header as upstream sent it.
\<close>

theorem policy_transport_status_headers:
  assumes "delegate req (upstreamWorld st) = ((Some r, None), w')"
    and "\<not> (HasPrefix (URL_Path req) ''graphql'' \<or> HasPrefix (URL_Path req) ''/graphql'')"
  shows "\<exists>r' st'. upstreamTransport_RoundTrip hasher now delegate req st = (Inr (Some r', None), st')
      \<and> StatusCode r' = StatusCode r \<and> Body r' = Body r
      \<and> (StatusCode r \<ge> 400 \<longrightarrow>
            Get (respHeader r') ''Cache-Control'' = ''no-store''
            \<and> respHeader r' (CanonicalMIMEHeaderKey cacheEntryCreationDateHeader)
                = respHeader r (CanonicalMIMEHeaderKey cacheEntryCreationDateHeader))
      \<and> (StatusCode r = 200 \<longrightarrow>
            Get (respHeader r') ''Cache-Control'' = ''no-cache''
            \<and> respHeader r' (CanonicalMIMEHeaderKey cacheEntryCreationDateHeader)
                = Some [Itoa (Unix (now (clockReadings st + 2)))])
      \<and> (StatusCode r = 304 \<longrightarrow>
            Get (respHeader r') ''Cache-Control'' = ''no-cache''
            \<and> respHeader r' (CanonicalMIMEHeaderKey cacheEntryCreationDateHeader)
                = respHeader r (CanonicalMIMEHeaderKey cacheEntryCreationDateHeader))"
  using assms
  by (simp add: upstreamTransport_RoundTrip_def Let_def isGraphQL_def Get_def Set_def canon_keys
      split: prod.splits)

theorem policy_transport_status_headers_witness:
  "\<exists>r' st'. upstreamTransport_RoundTrip fixedHasher fixedClock (respond (plainResponse 200))
               (apiRequest ''/repos/o/r'') freshUpstream = (Inr (Some r', None), st')
      \<and> Get (respHeader r') ''Cache-Control'' = ''no-cache''
      \<and> respHeader r' ''X-Prow-Request-Date'' = Some [''1700000000'']"
proof -
  have d: "respond (plainResponse 200) (apiRequest ''/repos/o/r'') (upstreamWorld freshUpstream)
             = ((Some (plainResponse 200), None), ())"
    by (simp add: respond_def)
  show ?thesis
    using policy_transport_status_headers
      [where delegate = "respond (plainResponse 200)" and req = "apiRequest ''/repos/o/r''"
         and st = freshUpstream and r = "plainResponse 200" and w' = "()"
         and hasher = fixedHasher and now = fixedClock]
      d apiRequest_not_graphql
    by (simp add: plainResponse_def canon_keys fixedClock_def Itoa_fixed) blast
qed

text \<open>
  Claim C6. For a request whose URL path begins with \<open>graphql\<close> or \<open>/graphql\<close>, the
  response leaves the policy transport with \<open>Cache-Control: no-store\<close>, whatever its
  status code.
\<close>

theorem graphql_always_no_store:
  assumes "delegate req (upstreamWorld st) = ((Some r, None), w')"
    and "HasPrefix (URL_Path req) ''graphql'' \<or> HasPrefix (URL_Path req) ''/graphql''"
  shows "\<exists>r' st'. upstreamTransport_RoundTrip hasher now delegate req st = (Inr (Some r', None), st')
      \<and> StatusCode r' = StatusCode r
      \<and> Get (respHeader r') ''Cache-Control'' = ''no-store''"
  using assms
  by (simp add: upstreamTransport_RoundTrip_def Let_def isGraphQL_def Get_def Set_def canon_keys
      split: prod.splits)

theorem graphql_always_no_store_witness:
  "\<exists>r' st'. upstreamTransport_RoundTrip fixedHasher fixedClock (respond (plainResponse 500))
               (apiRequest ''/graphql'') freshUpstream = (Inr (Some r', None), st')
      \<and> StatusCode r' = 500
      \<and> Get (respHeader r') ''Cache-Control'' = ''no-store''"
proof -
  have d: "respond (plainResponse 500) (apiRequest ''/graphql'') (upstreamWorld freshUpstream)
             = ((Some (plainResponse 500), None), ())"
    by (simp add: respond_def)
  have g: "HasPrefix (URL_Path (apiRequest ''/graphql'')) ''graphql''
           \<or> HasPrefix (URL_Path (apiRequest ''/graphql'')) ''/graphql''"
    by (simp add: apiRequest_def)
  show ?thesis
    using graphql_always_no_store
      [where delegate = "respond (plainResponse 500)" and req = "apiRequest ''/graphql''"
         and st = freshUpstream and r = "plainResponse 500" and w' = "()"
         and hasher = fixedHasher and now = fixedClock]
      d g
    by (simp add: plainResponse_def)
qed

text \<open>
  Claim C7. When the delegate returns an error, the policy transport reports one
  request-timeout metric, returns that same error with a nil response, and has invoked
  the delegate exactly once: there is no retry.
\<close>

theorem transport_error_propagated:
  assumes "delegate req (upstreamWorld st) = ((resp, Some e), w')"
  shows "\<exists>st'. upstreamTransport_RoundTrip hasher now delegate req st = (Inr (None, Some e), st')
      \<and> upstreamCalls st' = upstreamCalls st @ [req]
      \<and> upstreamWorld st' = w'
      \<and> metrics st' = metrics st @
          [RequestTimeoutMetrics
             (if Get (reqHeader req) TokenBudgetIdentifierHeader \<noteq> []
              then Get (reqHeader req) TokenBudgetIdentifierHeader else hasher req)
             (URL_Path req) (Get (reqHeader req) ''User-Agent'')
             (now (clockReadings st)) (now (Suc (clockReadings st)))]"
  using assms
  by (simp add: upstreamTransport_RoundTrip_def Let_def split: prod.splits)

theorem transport_error_propagated_witness:
  "\<exists>st'. upstreamTransport_RoundTrip fixedHasher fixedClock (failWith (Error ''connection reset''))
            (apiRequest ''/repos/o/r'') freshUpstream
          = (Inr (None, Some (Error ''connection reset'')), st')
      \<and> upstreamCalls st' = [apiRequest ''/repos/o/r'']
      \<and> metrics st' = [RequestTimeoutMetrics ''token-hash'' ''/repos/o/r'' []
                         1700000000000000000 1700000000000000000]"
proof -
  have d: "failWith (Error ''connection reset'') (apiRequest ''/repos/o/r'')
             (upstreamWorld freshUpstream) = ((None, Some (Error ''connection reset'')), ())"
    by (simp add: failWith_def)
  show ?thesis
    using transport_error_propagated
      [where delegate = "failWith (Error ''connection reset'')" and req = "apiRequest ''/repos/o/r''"
         and st = freshUpstream and resp = None and e = "Error ''connection reset''" and w' = "()"
         and hasher = fixedHasher and now = fixedClock]
      d
    by (simp add: freshUpstream_def apiRequest_def fixedHasher_def fixedClock_def Get_def)
qed

text \<open>
  Claim C10. For a request on a graphql path whose response has a success status (below
  400) other than 304, the response leaves the policy transport with both
  \<open>Cache-Control: no-store\<close> and the creation-timestamp header: the timestamp is set on
  the success branch, and the graphql override replaces the \<open>Cache-Control\<close> value only.
\<close>

theorem graphql_success_keeps_creation_stamp:
  assumes "delegate req (upstreamWorld st) = ((Some r, None), w')"
    and "HasPrefix (URL_Path req) ''graphql'' \<or> HasPrefix (URL_Path req) ''/graphql''"
    and "StatusCode r < 400" and "StatusCode r \<noteq> 304"
  shows "\<exists>r' st'. upstreamTransport_RoundTrip hasher now delegate req st = (Inr (Some r', None), st')
      \<and> Get (respHeader r') ''Cache-Control'' = ''no-store''
      \<and> respHeader r' (CanonicalMIMEHeaderKey cacheEntryCreationDateHeader)
          = Some [Itoa (Unix (now (clockReadings st + 2)))]
      \<and> Get (respHeader r') cacheEntryCreationDateHeader
          = Itoa (Unix (now (clockReadings st + 2)))"
  using assms
  by (simp add: upstreamTransport_RoundTrip_def Let_def isGraphQL_def Get_def Set_def canon_keys
      split: prod.splits)

theorem graphql_success_keeps_creation_stamp_witness:
  "\<exists>r' st'. upstreamTransport_RoundTrip fixedHasher fixedClock (respond (plainResponse 200))
               (apiRequest ''/graphql'') freshUpstream = (Inr (Some r', None), st')
      \<and> Get (respHeader r') ''Cache-Control'' = ''no-store''
      \<and> Get (respHeader r') cacheEntryCreationDateHeader = ''1700000000''"
proof -
  have d: "respond (plainResponse 200) (apiRequest ''/graphql'') (upstreamWorld freshUpstream)
             = ((Some (plainResponse 200), None), ())"
    by (simp add: respond_def)
  have g: "HasPrefix (URL_Path (apiRequest ''/graphql'')) ''graphql''
           \<or> HasPrefix (URL_Path (apiRequest ''/graphql'')) ''/graphql''"
    by (simp add: apiRequest_def)
  have s: "StatusCode (plainResponse 200) < 400" "StatusCode (plainResponse 200) \<noteq> 304"
    by (simp_all add: plainResponse_def)
  show ?thesis
    using graphql_success_keeps_creation_stamp
      [where delegate = "respond (plainResponse 200)" and req = "apiRequest ''/graphql''"
         and st = freshUpstream and r = "plainResponse 200" and w' = "()"
         and hasher = fixedHasher and now = fixedClock]
      d g s
    by (simp add: fixedClock_def Itoa_fixed) blast
qed

section \<open>The file system\<close>

lemma map_of_filter_fst:
  "map_of (filter (\<lambda>e. fst e \<noteq> c) es) k = (if k = c then None else map_of es k)"
  by (induction es) auto

lemma map_of_map_entry:
  "map_of (map (\<lambda>e. if fst e = c then (fst e, f (snd e)) else e) es) k
     = (if k = c then map_option f (map_of es c) else map_of es k)"
  by (induction es) auto

lemma map_of_setEntry: "map_of (setEntry c n es) k = (if k = c then Some n else map_of es k)"
  by (induction es) auto

lemma lookup_append:
  "lookup t (p @ q) = (case lookup t p of None \<Rightarrow> None | Some n \<Rightarrow> lookup n q)"
  by (induction t p rule: lookup.induct) (auto split: option.splits)

lemma lookup_below:
  "lookup t p = lookup t' p \<Longrightarrow> lookup t (p @ q) = lookup t' (p @ q)"
  by (simp add: lookup_append)

lemma residue_removable:
  "(\<forall>q. p @ q \<notin> U) \<Longrightarrow> residue U p n = None"
  "(\<forall>q. p @ q \<notin> U) \<Longrightarrow> residues U p es = []"
proof (induction U p n and U p es rule: residue_residues.induct)
  case (1 U p b)
  then have "p @ [] \<notin> U" by blast
  then show ?case by simp
next
  case (2 U p es)
  then have "p @ [] \<notin> U" by blast
  with 2 show ?case by simp
next
  case (3 U p)
  show ?case by simp
next
  case (4 U p e es)
  have "\<forall>q. (p @ [fst e]) @ q \<notin> U" using "4.prems" by simp
  with 4 show ?case by simp
qed

lemma residue_idem:
  "residue U p n = Some n' \<Longrightarrow> residue U p n' = Some n'"
  "residues U p (residues U p es) = residues U p es"
proof (induction U p n and U p es arbitrary: n' rule: residue_residues.induct)
  case (1 U p b)
  then show ?case by (auto split: if_splits)
next
  case (2 U p es)
  then show ?case by (auto simp: Let_def split: if_splits)
next
  case (3 U p)
  show ?case by simp
next
  case (4 U p e es)
  then show ?case by (auto split: option.splits)
qed

lemma lookup_removeAt_same:
  "p \<noteq> [] \<Longrightarrow>
   lookup (removeAt U pre p t) p
     = (case lookup t p of None \<Rightarrow> None | Some n \<Rightarrow> residue U (pre @ p) n)"
proof (induction U pre p t rule: removeAt.induct)
  case (1 U pre n)
  then show ?case by simp
next
  case (2 U pre c cs b)
  then show ?case by simp
next
  case (3 U pre c es)
  show ?case
    by (auto simp: map_of_filter_fst map_of_setEntry split: option.splits)
next
  case (4 U pre c c' cs es)
  show ?case
  proof (cases "map_of es c")
    case None
    then show ?thesis by (simp add: map_of_map_entry)
  next
    case (Some n)
    then have "(c, n) \<in> set es" by (rule map_of_SomeD)
    then have "lookup (removeAt U (pre @ [c]) (c' # cs) n) (c' # cs)
        = (case lookup n (c' # cs) of None \<Rightarrow> None
           | Some m \<Rightarrow> residue U ((pre @ [c]) @ c' # cs) m)"
      using "4.IH" [of "(c, n)"] by simp
    then show ?thesis by (simp add: map_of_map_entry Some cong: option.case_cong)
  qed
qed

lemma lookup_removeAt_diverge_here:
  "a \<noteq> c \<Longrightarrow> lookup (removeAt U pre (a # p) t) (c # q) = lookup t (c # q)"
proof (cases t)
  case (File b)
  then show ?thesis by simp
next
  case (Dir es)
  assume ac: "a \<noteq> c"
  show ?thesis
  proof (cases p)
    case Nil
    show ?thesis
    proof (cases "map_of es a")
      case None
      then show ?thesis unfolding Dir Nil by simp
    next
      case (Some n)
      then show ?thesis
        using ac unfolding Dir Nil
        by (cases "residue U (pre @ [a]) n") (simp_all add: map_of_filter_fst map_of_setEntry)
    qed
  next
    case (Cons y ys)
    show ?thesis using ac unfolding Dir Cons by (simp add: map_of_map_entry)
  qed
qed

lemma lookup_removeAt_step:
  "lookup (removeAt U pre (x # y # ys) (Dir es)) (x # q)
     = (case map_of es x of
          None \<Rightarrow> None
        | Some n \<Rightarrow> lookup (removeAt U (pre @ [x]) (y # ys) n) q)"
  by (simp add: map_of_map_entry split: option.splits)

lemma lookup_removeAt_diverge:
  "a \<noteq> c \<Longrightarrow> lookup (removeAt U pre (r @ a # p) t) (r @ c # q) = lookup t (r @ c # q)"
proof (induction r arbitrary: t pre)
  case Nil
  then show ?case by (simp add: lookup_removeAt_diverge_here)
next
  case (Cons x r)
  obtain y ys where ne: "r @ a # p = y # ys" by (cases r) auto
  show ?case
  proof (cases t)
    case (File b)
    then show ?thesis by simp
  next
    case (Dir es)
    have "lookup (removeAt U pre (x # y # ys) (Dir es)) (x # r @ c # q)
        = (case map_of es x of
             None \<Rightarrow> None
           | Some n \<Rightarrow> lookup (removeAt U (pre @ [x]) (y # ys) n) (r @ c # q))"
      by (rule lookup_removeAt_step)
    also have "\<dots> = (case map_of es x of None \<Rightarrow> None | Some n \<Rightarrow> lookup n (r @ c # q))"
      using Cons.IH [OF Cons.prems] unfolding ne by (simp split: option.splits)
    also have "\<dots> = lookup (Dir es) (x # r @ c # q)" by simp
    finally show ?thesis unfolding Dir using ne by simp
  qed
qed

lemma paths_diverge:
  "length p' = length p \<Longrightarrow> p' \<noteq> p \<Longrightarrow>
   \<exists>r a c s s'. p = r @ a # s \<and> p' = r @ c # s' \<and> a \<noteq> c"
proof (induction p' p rule: list_induct2)
  case Nil
  then show ?case by simp
next
  case (Cons x xs y ys)
  show ?case
  proof (cases "x = y")
    case False
    then have "y # ys = [] @ y # ys \<and> x # xs = [] @ x # xs \<and> y \<noteq> x" by simp
    then show ?thesis by blast
  next
    case True
    with Cons.prems have "xs \<noteq> ys" by simp
    from Cons.IH [OF this] obtain r a c s s'
      where "ys = r @ a # s" "xs = r @ c # s'" "a \<noteq> c" by blast
    then have "y # ys = (y # r) @ a # s \<and> x # xs = (y # r) @ c # s' \<and> a \<noteq> c"
      using True by simp
    then show ?thesis by blast
  qed
qed

lemma lookup_removeAt_other:
  assumes "length p' = length p" and "p' \<noteq> p"
  shows "lookup (removeAt U pre p t) p' = lookup t p'"
proof -
  from paths_diverge [OF assms] obtain r a c s s'
    where "p = r @ a # s" "p' = r @ c # s'" "a \<noteq> c" by blast
  then show ?thesis by (simp add: lookup_removeAt_diverge)
qed

section \<open>The pruner\<close>

lemma ReadFile_Inr: "ReadFile p w = Inr raw \<longleftrightarrow> lookup (tree w) p = Some (File raw)"
  by (auto simp: ReadFile_def split: option.splits fsnode.splits)

lemma butlast_metadataPath: "butlast (base @ [n, f]) = base @ [n]"
  by (simp add: butlast_append)

lemma pruneCandidate_tree:
  "tree (pruneCandidate u now base c w) = tree w
   \<or> (tree (pruneCandidate u now base c w)
         = removeAt (undeletable w) [] (base @ [fst c]) (tree w)
      \<and> snd c
      \<and> (\<exists>raw md. lookup (tree w) (base @ [fst c, cachePartitionMetadataFileName]) = Some (File raw)
            \<and> u raw = Inr md \<and> \<not> After (ExpiresAt md) (now (nowCalls w))))"
  by (auto simp: pruneCandidate_def Let_def RemoveAll_def butlast_metadataPath ReadFile_Inr
      split: sum.splits prod.splits option.splits if_splits)

lemma pruneCandidate_undeletable: "undeletable (pruneCandidate u now base c w) = undeletable w"
  by (auto simp: pruneCandidate_def Let_def RemoveAll_def
      split: sum.splits prod.splits option.splits if_splits)

lemma pruneCandidate_nowCalls: "nowCalls w \<le> nowCalls (pruneCandidate u now base c w)"
  by (auto simp: pruneCandidate_def Let_def RemoveAll_def
      split: sum.splits prod.splits option.splits if_splits)

lemma pruneCandidate_judged:
  assumes "snd c"
    and "lookup (tree w) (base @ [fst c, cachePartitionMetadataFileName]) = Some (File raw)"
    and "u raw = Inr md"
  shows "nowCalls (pruneCandidate u now base c w) = Suc (nowCalls w)"
    and "After (ExpiresAt md) (now (nowCalls w)) \<Longrightarrow> tree (pruneCandidate u now base c w) = tree w"
    and "\<not> After (ExpiresAt md) (now (nowCalls w)) \<Longrightarrow>
         tree (pruneCandidate u now base c w)
           = removeAt (undeletable w) [] (base @ [fst c]) (tree w)"
proof -
  have r: "ReadFile (base @ [fst c, cachePartitionMetadataFileName]) w = Inr raw"
    using assms(2) by (simp add: ReadFile_Inr)
  show "nowCalls (pruneCandidate u now base c w) = Suc (nowCalls w)"
    using assms r
    by (simp add: pruneCandidate_def Let_def RemoveAll_def split: prod.splits option.splits)
  show "After (ExpiresAt md) (now (nowCalls w)) \<Longrightarrow> tree (pruneCandidate u now base c w) = tree w"
    using assms r by (simp add: pruneCandidate_def Let_def)
  show "\<not> After (ExpiresAt md) (now (nowCalls w)) \<Longrightarrow>
      tree (pruneCandidate u now base c w)
        = removeAt (undeletable w) [] (base @ [fst c]) (tree w)"
    using assms r
    by (simp add: pruneCandidate_def Let_def RemoveAll_def butlast_metadataPath
        split: prod.splits option.splits)
qed

lemma pruneCandidate_other:
  assumes "length q = Suc (length base)" and "q \<noteq> base @ [fst c]"
  shows "lookup (tree (pruneCandidate u now base c w)) q = lookup (tree w) q"
  using pruneCandidate_tree [of u now base c w] assms
  by (auto simp: lookup_removeAt_other)

text \<open>
  A node is settled when \<open>os.RemoveAll\<close> would leave it as it is: it is not there, or it
  is what an earlier removal has left.
\<close>

lemma pruneCandidate_settled:
  assumes len: "length q = Suc (length base)"
    and settled: "case lookup (tree w) q of
                    None \<Rightarrow> True
                  | Some n \<Rightarrow> residue (undeletable w) q n = Some n"
  shows "lookup (tree (pruneCandidate u now base c w)) q = lookup (tree w) q"
proof (cases "q = base @ [fst c]")
  case False
  with len show ?thesis by (simp add: pruneCandidate_other)
next
  case True
  have ne: "q \<noteq> []" using len by auto
  from pruneCandidate_tree [of u now base c w]
  consider "tree (pruneCandidate u now base c w) = tree w"
    | "tree (pruneCandidate u now base c w) = removeAt (undeletable w) [] q (tree w)"
    unfolding True by blast
  then show ?thesis
  proof cases
    case 1
    then show ?thesis by simp
  next
    case 2
    show ?thesis
      unfolding 2 lookup_removeAt_same [OF ne] using settled
      by (simp split: option.splits)
  qed
qed

lemma pruneCandidate_kept:
  assumes len: "length q = Suc (length base)"
    and keep: "(q = base @ [fst c] \<longrightarrow> \<not> snd c)
      \<or> (\<forall>raw md. lookup (tree w) (q @ [cachePartitionMetadataFileName]) = Some (File raw)
            \<longrightarrow> u raw \<noteq> Inr md)"
  shows "lookup (tree (pruneCandidate u now base c w)) q = lookup (tree w) q"
proof (cases "q = base @ [fst c]")
  case False
  with len show ?thesis by (simp add: pruneCandidate_other)
next
  case True
  have "tree (pruneCandidate u now base c w) = tree w"
    using pruneCandidate_tree [of u now base c w] keep True by auto
  then show ?thesis by simp
qed

text \<open>
  The inner loop of \<open>Prune\<close> over a listing: a partition that is listed as a directory
  and whose metadata is deserialized is judged against one reading of the clock taken
  during the loop, and what the removal leaves of it is left by the rest of the loop.
\<close>

lemma sweep_undeletable:
  "undeletable (foldl (\<lambda>acc c. pruneCandidate u now base c acc) w cs) = undeletable w"
  by (induction cs arbitrary: w) (simp_all add: pruneCandidate_undeletable)

lemma sweep_nowCalls:
  "nowCalls w \<le> nowCalls (foldl (\<lambda>acc c. pruneCandidate u now base c acc) w cs)"
proof (induction cs arbitrary: w)
  case Nil
  show ?case by simp
next
  case (Cons c cs)
  have "nowCalls w \<le> nowCalls (pruneCandidate u now base c w)" by (rule pruneCandidate_nowCalls)
  also have "\<dots> \<le> nowCalls (foldl (\<lambda>acc c. pruneCandidate u now base c acc)
                          (pruneCandidate u now base c w) cs)"
    by (rule Cons.IH)
  finally show ?case by simp
qed

lemma sweep_other:
  "length q = Suc (length base) \<Longrightarrow> \<forall>c \<in> set cs. q \<noteq> base @ [fst c] \<Longrightarrow>
   lookup (tree (foldl (\<lambda>acc c. pruneCandidate u now base c acc) w cs)) q = lookup (tree w) q"
  by (induction cs arbitrary: w) (simp_all add: pruneCandidate_other)

lemma sweep_settled:
  assumes len: "length q = Suc (length base)"
    and settled: "case lookup (tree w) q of
                    None \<Rightarrow> True
                  | Some n \<Rightarrow> residue (undeletable w) q n = Some n"
  shows "lookup (tree (foldl (\<lambda>acc c. pruneCandidate u now base c acc) w cs)) q
           = lookup (tree w) q"
  using settled
proof (induction cs arbitrary: w)
  case Nil
  show ?case by simp
next
  case (Cons c cs)
  let ?w1 = "pruneCandidate u now base c w"
  have same: "lookup (tree ?w1) q = lookup (tree w) q"
    using len Cons.prems by (rule pruneCandidate_settled)
  have "case lookup (tree ?w1) q of
          None \<Rightarrow> True
        | Some n \<Rightarrow> residue (undeletable ?w1) q n = Some n"
    using Cons.prems unfolding same pruneCandidate_undeletable .
  then have "lookup (tree (foldl (\<lambda>acc c. pruneCandidate u now base c acc) ?w1 cs)) q
               = lookup (tree ?w1) q"
    by (rule Cons.IH)
  with same show ?case by simp
qed

lemma sweep_kept:
  assumes len: "length q = Suc (length base)"
    and keep: "(\<forall>c \<in> set cs. q = base @ [fst c] \<longrightarrow> \<not> snd c)
      \<or> (\<forall>raw md. lookup (tree w) (q @ [cachePartitionMetadataFileName]) = Some (File raw)
            \<longrightarrow> u raw \<noteq> Inr md)"
  shows "lookup (tree (foldl (\<lambda>acc c. pruneCandidate u now base c acc) w cs)) q
           = lookup (tree w) q"
  using keep
proof (induction cs arbitrary: w)
  case Nil
  show ?case by simp
next
  case (Cons c cs)
  let ?w1 = "pruneCandidate u now base c w"
  have "(q = base @ [fst c] \<longrightarrow> \<not> snd c)
      \<or> (\<forall>raw md. lookup (tree w) (q @ [cachePartitionMetadataFileName]) = Some (File raw)
            \<longrightarrow> u raw \<noteq> Inr md)"
    using Cons.prems by auto
  with len have same: "lookup (tree ?w1) q = lookup (tree w) q"
    by (rule pruneCandidate_kept)
  then have "lookup (tree ?w1) (q @ [cachePartitionMetadataFileName])
               = lookup (tree w) (q @ [cachePartitionMetadataFileName])"
    by (rule lookup_below)
  with Cons.prems
  have "(\<forall>c \<in> set cs. q = base @ [fst c] \<longrightarrow> \<not> snd c)
      \<or> (\<forall>raw md. lookup (tree ?w1) (q @ [cachePartitionMetadataFileName]) = Some (File raw)
            \<longrightarrow> u raw \<noteq> Inr md)"
    by auto
  then have "lookup (tree (foldl (\<lambda>acc c. pruneCandidate u now base c acc) ?w1 cs)) q
               = lookup (tree ?w1) q"
    by (rule Cons.IH)
  with same show ?case by simp
qed

lemma sweep_outcome:
  assumes listed: "(name, True) \<in> set cs"
    and node: "lookup (tree w) (base @ [name]) = Some n0"
    and meta: "lookup n0 [cachePartitionMetadataFileName] = Some (File raw)"
    and parsed: "u raw = Inr md"
  shows "\<exists>k. nowCalls w \<le> k
      \<and> k < nowCalls (foldl (\<lambda>acc c. pruneCandidate u now base c acc) w cs)
      \<and> ((After (ExpiresAt md) (now k)
            \<and> lookup (tree (foldl (\<lambda>acc c. pruneCandidate u now base c acc) w cs)) (base @ [name])
                = Some n0)
         \<or> (\<not> After (ExpiresAt md) (now k)
            \<and> lookup (tree (foldl (\<lambda>acc c. pruneCandidate u now base c acc) w cs)) (base @ [name])
                = residue (undeletable w) (base @ [name]) n0))"
  using listed node
proof (induction cs arbitrary: w)
  case Nil
  then show ?case by simp
next
  case (Cons c cs)
  let ?P = "base @ [name]"
  let ?w1 = "pruneCandidate u now base c w"
  let ?w' = "foldl (\<lambda>acc c. pruneCandidate u now base c acc) ?w1 cs"
  have len: "length ?P = Suc (length base)" by simp
  have un: "undeletable ?w1 = undeletable w" by (rule pruneCandidate_undeletable)
  have mono1: "nowCalls w \<le> nowCalls ?w1" by (rule pruneCandidate_nowCalls)
  have mono2: "nowCalls ?w1 \<le> nowCalls ?w'" by (rule sweep_nowCalls)
  show ?case
  proof (cases "c = (name, True)")
    case False
    then have "?P = base @ [fst c] \<longrightarrow> \<not> snd c" by (cases c) auto
    then have "lookup (tree ?w1) ?P = lookup (tree w) ?P"
      using len by (intro pruneCandidate_kept) simp_all
    then have node1: "lookup (tree ?w1) ?P = Some n0" using Cons.prems(2) by simp
    from False Cons.prems(1) have "(name, True) \<in> set cs" by simp
    from Cons.IH [OF this node1] obtain k where "nowCalls ?w1 \<le> k" "k < nowCalls ?w'"
      "(After (ExpiresAt md) (now k) \<and> lookup (tree ?w') ?P = Some n0)
       \<or> (\<not> After (ExpiresAt md) (now k)
          \<and> lookup (tree ?w') ?P = residue (undeletable ?w1) ?P n0)"
      by blast
    then show ?thesis using mono1 un by (auto intro!: exI [of _ k])
  next
    case True
    have mfile: "lookup (tree w) (base @ [fst c, cachePartitionMetadataFileName]) = Some (File raw)"
      using lookup_append [of "tree w" ?P "[cachePartitionMetadataFileName]"] Cons.prems(2) meta
        True
      by simp
    have sc: "snd c" using True by simp
    have j1: "nowCalls ?w1 = Suc (nowCalls w)"
      using sc mfile parsed by (rule pruneCandidate_judged(1))
    have j2: "After (ExpiresAt md) (now (nowCalls w)) \<Longrightarrow> tree ?w1 = tree w"
      using sc mfile parsed by (rule pruneCandidate_judged(2))
    have j3: "\<not> After (ExpiresAt md) (now (nowCalls w)) \<Longrightarrow>
        tree ?w1 = removeAt (undeletable w) [] (base @ [fst c]) (tree w)"
      using sc mfile parsed by (rule pruneCandidate_judged(3))
    let ?k = "nowCalls w"
    have k: "?k < nowCalls ?w'" using j1 mono2 by simp
    show ?thesis
    proof (cases "After (ExpiresAt md) (now ?k)")
      case after: True
      then have node1: "lookup (tree ?w1) ?P = Some n0" using j2 Cons.prems(2) by simp
      show ?thesis
      proof (cases "(name, True) \<in> set cs")
        case True
        from Cons.IH [OF this node1] obtain k' where "nowCalls ?w1 \<le> k'" "k' < nowCalls ?w'"
          "(After (ExpiresAt md) (now k') \<and> lookup (tree ?w') ?P = Some n0)
           \<or> (\<not> After (ExpiresAt md) (now k')
              \<and> lookup (tree ?w') ?P = residue (undeletable ?w1) ?P n0)"
          by blast
        then show ?thesis using mono1 un by (auto intro!: exI [of _ k'])
      next
        case False
        then have "\<forall>c \<in> set cs. ?P = base @ [fst c] \<longrightarrow> \<not> snd c" by auto
        then have "lookup (tree ?w') ?P = lookup (tree ?w1) ?P"
          using len by (intro sweep_kept) simp_all
        with node1 have "lookup (tree ?w') ?P = Some n0" by simp
        with after k show ?thesis by (auto intro!: exI [of _ ?k])
      qed
    next
      case notafter: False
      have ne: "?P \<noteq> []" by simp
      have "tree ?w1 = removeAt (undeletable w) [] ?P (tree w)"
        using j3 [OF notafter] True by simp
      then have r1: "lookup (tree ?w1) ?P = residue (undeletable w) ?P n0"
        using lookup_removeAt_same [OF ne, of "undeletable w" "[]" "tree w"] Cons.prems(2)
        by simp
      have "case lookup (tree ?w1) ?P of
              None \<Rightarrow> True
            | Some n \<Rightarrow> residue (undeletable ?w1) ?P n = Some n"
        unfolding r1 un by (auto split: option.splits dest: residue_idem(1))
      with len have "lookup (tree ?w') ?P = lookup (tree ?w1) ?P"
        by (rule sweep_settled)
      with r1 have "lookup (tree ?w') ?P = residue (undeletable w) ?P n0" by simp
      with notafter k show ?thesis by (auto intro!: exI [of _ ?k])
    qed
  qed
qed

lemma pruneDir_sweep:
  "\<exists>w1. pruneDir u now baseDir dir w
          = foldl (\<lambda>acc c. pruneCandidate u now (baseDir @ [dir]) c acc) w1
              (fst (ReadDir (baseDir @ [dir]) w))
        \<and> tree w1 = tree w \<and> undeletable w1 = undeletable w \<and> nowCalls w1 = nowCalls w"
proof -
  let ?w1 = "case snd (ReadDir (baseDir @ [dir]) w) of
               None \<Rightarrow> w
             | Some e \<Rightarrow> w\<lparr>pruneLog := pruneLog w @ [ReadDirFailed e]\<rparr>"
  have "pruneDir u now baseDir dir w
          = foldl (\<lambda>acc c. pruneCandidate u now (baseDir @ [dir]) c acc) ?w1
              (fst (ReadDir (baseDir @ [dir]) w))"
    by (simp add: pruneDir_def Let_def split: prod.splits)
  moreover have "tree ?w1 = tree w" "undeletable ?w1 = undeletable w" "nowCalls ?w1 = nowCalls w"
    by (simp_all split: option.splits)
  ultimately show ?thesis by blast
qed

lemma ReadDir_lists:
  assumes "lookup (tree w) (base @ [name]) = Some n" and "isDir n"
  shows "(name, True) \<in> set (fst (ReadDir base w))"
proof -
  from assms(1) obtain m where m: "lookup (tree w) base = Some m"
    and mn: "lookup m [name] = Some n"
    using lookup_append [of "tree w" base "[name]"] by (auto split: option.splits)
  from mn obtain es where "m = Dir es" and n: "map_of es name = Some n"
    by (cases m) (auto split: option.splits)
  with m have es: "lookup (tree w) base = Some (Dir es)" by simp
  from n have "(name, n) \<in> set es" by (rule map_of_SomeD)
  then have "(name, isDir n) \<in> set (map (\<lambda>e. (fst e, isDir (snd e))) es)"
    by force
  then show ?thesis using es assms(2) by (simp add: ReadDir_def)
qed

lemma pruneDir_undeletable: "undeletable (pruneDir u now baseDir dir w) = undeletable w"
proof -
  obtain w1 where eq: "pruneDir u now baseDir dir w
      = foldl (\<lambda>acc c. pruneCandidate u now (baseDir @ [dir]) c acc) w1
          (fst (ReadDir (baseDir @ [dir]) w))"
    and un: "undeletable w1 = undeletable w"
    using pruneDir_sweep [of u now baseDir dir w] by blast
  show ?thesis unfolding eq by (simp only: sweep_undeletable un)
qed

lemma pruneDir_nowCalls: "nowCalls w \<le> nowCalls (pruneDir u now baseDir dir w)"
proof -
  obtain w1 where eq: "pruneDir u now baseDir dir w
      = foldl (\<lambda>acc c. pruneCandidate u now (baseDir @ [dir]) c acc) w1
          (fst (ReadDir (baseDir @ [dir]) w))"
    and n: "nowCalls w1 = nowCalls w"
    using pruneDir_sweep [of u now baseDir dir w] by blast
  show ?thesis unfolding eq n [symmetric] by (rule sweep_nowCalls)
qed

lemma pruneDir_kept:
  assumes "length q = length baseDir + 2"
    and "\<forall>raw md. lookup (tree w) (q @ [cachePartitionMetadataFileName]) = Some (File raw)
           \<longrightarrow> u raw \<noteq> Inr md"
  shows "lookup (tree (pruneDir u now baseDir dir w)) q = lookup (tree w) q"
proof -
  obtain w1 where eq: "pruneDir u now baseDir dir w
      = foldl (\<lambda>acc c. pruneCandidate u now (baseDir @ [dir]) c acc) w1
          (fst (ReadDir (baseDir @ [dir]) w))"
    and t: "tree w1 = tree w"
    using pruneDir_sweep [of u now baseDir dir w] by blast
  have "lookup (tree (foldl (\<lambda>acc c. pruneCandidate u now (baseDir @ [dir]) c acc) w1
          (fst (ReadDir (baseDir @ [dir]) w)))) q = lookup (tree w1) q"
    using assms t by (intro sweep_kept) simp_all
  then show ?thesis by (simp add: eq t)
qed

lemma pruneDir_other:
  assumes "dir' \<noteq> dir"
  shows "lookup (tree (pruneDir u now baseDir dir w)) (baseDir @ [dir', name])
           = lookup (tree w) (baseDir @ [dir', name])"
proof -
  obtain w1 where eq: "pruneDir u now baseDir dir w
      = foldl (\<lambda>acc c. pruneCandidate u now (baseDir @ [dir]) c acc) w1
          (fst (ReadDir (baseDir @ [dir]) w))"
    and t: "tree w1 = tree w"
    using pruneDir_sweep [of u now baseDir dir w] by blast
  have "lookup (tree (foldl (\<lambda>acc c. pruneCandidate u now (baseDir @ [dir]) c acc) w1
          (fst (ReadDir (baseDir @ [dir]) w)))) (baseDir @ [dir', name])
        = lookup (tree w1) (baseDir @ [dir', name])"
    using assms by (intro sweep_other) simp_all
  then show ?thesis by (simp add: eq t)
qed

lemma pruneDir_outcome:
  assumes node: "lookup (tree w) (baseDir @ [dir, name]) = Some part"
    and meta: "lookup part [cachePartitionMetadataFileName] = Some (File raw)"
    and parsed: "u raw = Inr md"
  shows "\<exists>k. nowCalls w \<le> k \<and> k < nowCalls (pruneDir u now baseDir dir w)
      \<and> ((After (ExpiresAt md) (now k)
            \<and> lookup (tree (pruneDir u now baseDir dir w)) (baseDir @ [dir, name]) = Some part)
         \<or> (\<not> After (ExpiresAt md) (now k)
            \<and> lookup (tree (pruneDir u now baseDir dir w)) (baseDir @ [dir, name])
                = residue (undeletable w) (baseDir @ [dir, name]) part))"
proof -
  obtain w1 where eq: "pruneDir u now baseDir dir w
      = foldl (\<lambda>acc c. pruneCandidate u now (baseDir @ [dir]) c acc) w1
          (fst (ReadDir (baseDir @ [dir]) w))"
    and t: "tree w1 = tree w" and un: "undeletable w1 = undeletable w"
    and n: "nowCalls w1 = nowCalls w"
    using pruneDir_sweep [of u now baseDir dir w] by blast
  have P: "(baseDir @ [dir]) @ [name] = baseDir @ [dir, name]" by simp
  have part: "lookup (tree w) ((baseDir @ [dir]) @ [name]) = Some part" using node by simp
  from meta have "isDir part" by (cases part) auto
  with part have listed: "(name, True) \<in> set (fst (ReadDir (baseDir @ [dir]) w))"
    by (rule ReadDir_lists)
  have n1: "lookup (tree w1) ((baseDir @ [dir]) @ [name]) = Some part" using part t by simp
  show ?thesis
    using sweep_outcome [where u = u and now = now, OF listed n1 meta parsed]
    unfolding eq un n P .
qed

lemma Prune_two_sweeps:
  "Prune u baseDir now w = pruneDir u now baseDir ''temp'' (pruneDir u now baseDir ''data'' w)"
  by (simp add: Prune_def)

lemma Prune_judged:
  assumes root: "dir = ''data'' \<or> dir = ''temp''"
    and node: "lookup (tree w) (baseDir @ [dir, name]) = Some part"
    and meta: "lookup part [cachePartitionMetadataFileName] = Some (File raw)"
    and parsed: "u raw = Inr md"
  shows "\<exists>k. nowCalls w \<le> k \<and> k < nowCalls (Prune u baseDir now w)
      \<and> ((After (ExpiresAt md) (now k)
            \<and> lookup (tree (Prune u baseDir now w)) (baseDir @ [dir, name]) = Some part)
         \<or> (\<not> After (ExpiresAt md) (now k)
            \<and> lookup (tree (Prune u baseDir now w)) (baseDir @ [dir, name])
                = residue (undeletable w) (baseDir @ [dir, name]) part))"
proof -
  let ?P = "baseDir @ [dir, name]"
  let ?w1 = "pruneDir u now baseDir ''data'' w"
  let ?w2 = "pruneDir u now baseDir ''temp'' ?w1"
  have m1: "nowCalls w \<le> nowCalls ?w1" by (rule pruneDir_nowCalls)
  have m2: "nowCalls ?w1 \<le> nowCalls ?w2" by (rule pruneDir_nowCalls)
  show ?thesis
  proof (cases "dir = ''data''")
    case True
    from pruneDir_outcome [where u = u and now = now, OF node meta parsed] obtain k
      where k: "nowCalls w \<le> k" "k < nowCalls (pruneDir u now baseDir dir w)"
        and out: "(After (ExpiresAt md) (now k)
            \<and> lookup (tree (pruneDir u now baseDir dir w)) ?P = Some part)
         \<or> (\<not> After (ExpiresAt md) (now k)
            \<and> lookup (tree (pruneDir u now baseDir dir w)) ?P = residue (undeletable w) ?P part)"
      by blast
    have "lookup (tree ?w2) (baseDir @ [''data'', name]) = lookup (tree ?w1) (baseDir @ [''data'', name])"
      by (rule pruneDir_other) simp
    then have same: "lookup (tree ?w2) ?P = lookup (tree (pruneDir u now baseDir dir w)) ?P"
      using True by simp
    have "k < nowCalls ?w2" using k(2) m2 True by simp
    with k(1) out show ?thesis
      unfolding Prune_two_sweeps same by (intro exI [of _ k]) simp
  next
    case False
    with root have temp: "dir = ''temp''" by simp
    have "lookup (tree ?w1) (baseDir @ [''temp'', name]) = lookup (tree w) (baseDir @ [''temp'', name])"
      by (rule pruneDir_other) simp
    then have node1: "lookup (tree ?w1) (baseDir @ [''temp'', name]) = Some part"
      using node temp by simp
    from pruneDir_outcome [where u = u and now = now, OF node1 meta parsed] obtain k
      where k: "nowCalls ?w1 \<le> k" "k < nowCalls ?w2"
        and out: "(After (ExpiresAt md) (now k)
            \<and> lookup (tree ?w2) (baseDir @ [''temp'', name]) = Some part)
         \<or> (\<not> After (ExpiresAt md) (now k)
            \<and> lookup (tree ?w2) (baseDir @ [''temp'', name])
                = residue (undeletable ?w1) (baseDir @ [''temp'', name]) part)"
      by blast
    have "nowCalls w \<le> k" using k(1) m1 by simp
    with k(2) out show ?thesis
      unfolding Prune_two_sweeps temp pruneDir_undeletable by (intro exI [of _ k]) simp
  qed
qed

lemma Prune_skipped:
  assumes skip: "\<forall>raw md.
      lookup (tree w) (baseDir @ [dir, name, cachePartitionMetadataFileName]) = Some (File raw)
        \<longrightarrow> u raw \<noteq> Inr md"
  shows "lookup (tree (Prune u baseDir now w)) (baseDir @ [dir, name])
           = lookup (tree w) (baseDir @ [dir, name])"
proof -
  let ?P = "baseDir @ [dir, name]"
  let ?M = "baseDir @ [dir, name, cachePartitionMetadataFileName]"
  let ?w1 = "pruneDir u now baseDir ''data'' w"
  let ?w2 = "pruneDir u now baseDir ''temp'' ?w1"
  have PM: "?P @ [cachePartitionMetadataFileName] = ?M" by simp
  have len: "length ?P = length baseDir + 2" by simp
  have 1: "lookup (tree ?w1) ?P = lookup (tree w) ?P"
    using len skip by (intro pruneDir_kept) (simp_all only: PM)
  then have "lookup (tree ?w1) (?P @ [cachePartitionMetadataFileName])
               = lookup (tree w) (?P @ [cachePartitionMetadataFileName])"
    by (rule lookup_below)
  then have M1: "lookup (tree ?w1) ?M = lookup (tree w) ?M" by (simp only: PM)
  have "lookup (tree ?w2) ?P = lookup (tree ?w1) ?P"
    using len skip by (intro pruneDir_kept) (simp_all only: PM M1)
  with 1 show ?thesis unfolding Prune_two_sweeps by simp
qed

lemma testClock_after_old: "\<not> After 100 (testClock k)"
  by (simp add: After_def testClock_def)

lemma testClock_before_new: "After 300 (testClock k)"
  by (simp add: After_def testClock_def)

text \<open>
  Claim C5 says that a partition whose \<open>expires_at\<close> is at or before the current time
  is recursively deleted. \<open>Prune\<close> calls \<open>os.RemoveAll\<close> on it and logs the error it
  returns: where the operating system refuses to remove an entry of the partition, the
  partition is still there after the sweep, with that entry and without its metadata file.
\<close>

theorem Prune_expired_partition_left_counterexample:
  "lookup (tree lockedWorld) [''cache'', ''data'', ''locked'', cachePartitionMetadataFileName]
     = Some (File ''old'')
   \<and> testUnmarshal ''old'' = Inr \<lparr>ExpiresAt = 100\<rparr>
   \<and> \<not> After 100 (stoppedClock 0)
   \<and> Prune testUnmarshal [''cache''] stoppedClock lockedWorld
     = \<lparr>tree = Dir [(''cache'', Dir
          [(''data'', Dir [(''locked'', Dir [(''entry'', File ''body'')])]),
           (''temp'', Dir [])])],
        undeletable = {[''cache'', ''data'', ''locked'', ''entry'']},
        nowCalls = 1,
        pruneLog = [CleaningUp [''cache'', ''data'', ''locked''] 100,
                    DeleteFailed [''cache'', ''data'', ''locked'']
                      (Error ''operation not permitted'')]\<rparr>"
  by (simp add: Prune_def pruneDir_def pruneCandidate_def ReadDir_def ReadFile_def RemoveAll_def
      lockedWorld_def stoppedClock_def testUnmarshal_def After_def Let_def
      cachePartitionMetadataFileName_def)

text \<open>
  Claim C5, as amended. A sweep of \<open>Prune\<close> over the roots \<open>data\<close> and \<open>temp\<close>, for the
  partition directory \<open>name\<close> under either root. If its metadata file is read and
  deserialized, the partition is judged against one reading of the injected clock taken
  during the sweep: if its \<open>expires_at\<close> is after that reading the partition is
  untouched; if it is at or before that reading, \<open>os.RemoveAll\<close> is applied to the
  partition and what that leaves is what is there after the sweep, which is nothing when
  the operating system refuses to remove nothing at or below the partition. If the
  partition has no readable metadata file, or the metadata does not deserialize, it is
  skipped and untouched. This holds for each partition whatever happens at the others:
  a partition that cannot be read, deserialized or removed does not stop the sweep.
\<close>

theorem Prune_partition_outcomes:
  assumes root: "dir = ''data'' \<or> dir = ''temp''"
  shows
    "(\<forall>part raw md.
        lookup (tree w) (baseDir @ [dir, name]) = Some part
        \<longrightarrow> lookup part [cachePartitionMetadataFileName] = Some (File raw)
        \<longrightarrow> unmarshal raw = Inr md
        \<longrightarrow> (\<exists>k. nowCalls w \<le> k \<and> k < nowCalls (Prune unmarshal baseDir now w)
              \<and> (if After (ExpiresAt md) (now k)
                 then lookup (tree (Prune unmarshal baseDir now w)) (baseDir @ [dir, name])
                        = Some part
                 else lookup (tree (Prune unmarshal baseDir now w)) (baseDir @ [dir, name])
                        = residue (undeletable w) (baseDir @ [dir, name]) part
                      \<and> ((\<forall>q. baseDir @ [dir, name] @ q \<notin> undeletable w)
                           \<longrightarrow> lookup (tree (Prune unmarshal baseDir now w))
                                 (baseDir @ [dir, name]) = None))))
     \<and> ((\<forall>raw. lookup (tree w) (baseDir @ [dir, name, cachePartitionMetadataFileName])
                  \<noteq> Some (File raw))
        \<longrightarrow> lookup (tree (Prune unmarshal baseDir now w)) (baseDir @ [dir, name])
              = lookup (tree w) (baseDir @ [dir, name]))
     \<and> (\<forall>raw e.
        lookup (tree w) (baseDir @ [dir, name, cachePartitionMetadataFileName]) = Some (File raw)
        \<longrightarrow> unmarshal raw = Inl e
        \<longrightarrow> lookup (tree (Prune unmarshal baseDir now w)) (baseDir @ [dir, name])
              = lookup (tree w) (baseDir @ [dir, name]))"
proof (intro conjI allI impI)
  fix part raw md
  let ?P = "baseDir @ [dir, name]"
  let ?w' = "Prune unmarshal baseDir now w"
  assume node: "lookup (tree w) ?P = Some part"
    and meta: "lookup part [cachePartitionMetadataFileName] = Some (File raw)"
    and parsed: "unmarshal raw = Inr md"
  from Prune_judged [where u = unmarshal and now = now, OF root node meta parsed] obtain k
    where k: "nowCalls w \<le> k" "k < nowCalls ?w'"
      and out: "(After (ExpiresAt md) (now k) \<and> lookup (tree ?w') ?P = Some part)
         \<or> (\<not> After (ExpiresAt md) (now k)
            \<and> lookup (tree ?w') ?P = residue (undeletable w) ?P part)"
    by blast
  have gone: "residue (undeletable w) ?P part = None" if "\<forall>q. ?P @ q \<notin> undeletable w"
    using that by (intro residue_removable(1)) simp
  show "\<exists>k. nowCalls w \<le> k \<and> k < nowCalls ?w'
      \<and> (if After (ExpiresAt md) (now k)
         then lookup (tree ?w') ?P = Some part
         else lookup (tree ?w') ?P = residue (undeletable w) ?P part
              \<and> ((\<forall>q. baseDir @ [dir, name] @ q \<notin> undeletable w)
                   \<longrightarrow> lookup (tree ?w') ?P = None))"
    using k out gone by (intro exI [of _ k]) auto
next
  assume "\<forall>raw. lookup (tree w) (baseDir @ [dir, name, cachePartitionMetadataFileName])
            \<noteq> Some (File raw)"
  then show "lookup (tree (Prune unmarshal baseDir now w)) (baseDir @ [dir, name])
      = lookup (tree w) (baseDir @ [dir, name])"
    by (intro Prune_skipped) simp
next
  fix raw e
  assume "lookup (tree w) (baseDir @ [dir, name, cachePartitionMetadataFileName]) = Some (File raw)"
    and "unmarshal raw = Inl e"
  then show "lookup (tree (Prune unmarshal baseDir now w)) (baseDir @ [dir, name])
      = lookup (tree w) (baseDir @ [dir, name])"
    by (intro Prune_skipped) simp
qed

theorem Prune_partition_outcomes_witness:
  "lookup (tree (Prune testUnmarshal [''cache''] testClock testWorld)) [''cache'', ''data'', ''old'']
     = None
   \<and> lookup (tree (Prune testUnmarshal [''cache''] testClock testWorld)) [''cache'', ''temp'', ''old'']
     = None
   \<and> lookup (tree (Prune testUnmarshal [''cache''] testClock testWorld)) [''cache'', ''data'', ''new'']
     = Some (Dir [(''.cache_metadata.json'', File ''new'')])
   \<and> lookup (tree (Prune testUnmarshal [''cache''] testClock testWorld)) [''cache'', ''data'', ''nometa'']
     = Some (Dir [])
   \<and> lookup (tree (Prune testUnmarshal [''cache''] testClock testWorld)) [''cache'', ''data'', ''bad'']
     = Some (Dir [(''.cache_metadata.json'', File ''garbage'')])
   \<and> lookup (tree (Prune testUnmarshal [''cache''] testClock testWorld)) [''cache'', ''data'', ''locked'']
     = Some (Dir [(''entry'', File ''body'')])"
  using
    Prune_partition_outcomes [where dir = "''data''" and name = "''old''" and w = testWorld
      and baseDir = "[''cache'']" and unmarshal = testUnmarshal and now = testClock]
    Prune_partition_outcomes [where dir = "''temp''" and name = "''old''" and w = testWorld
      and baseDir = "[''cache'']" and unmarshal = testUnmarshal and now = testClock]
    Prune_partition_outcomes [where dir = "''data''" and name = "''new''" and w = testWorld
      and baseDir = "[''cache'']" and unmarshal = testUnmarshal and now = testClock]
    Prune_partition_outcomes [where dir = "''data''" and name = "''nometa''" and w = testWorld
      and baseDir = "[''cache'']" and unmarshal = testUnmarshal and now = testClock]
    Prune_partition_outcomes [where dir = "''data''" and name = "''bad''" and w = testWorld
      and baseDir = "[''cache'']" and unmarshal = testUnmarshal and now = testClock]
    Prune_partition_outcomes [where dir = "''data''" and name = "''locked''" and w = testWorld
      and baseDir = "[''cache'']" and unmarshal = testUnmarshal and now = testClock]
  by (simp add: testWorld_def testUnmarshal_def testClock_after_old testClock_before_new
      cachePartitionMetadataFileName_def)

section \<open>The calendar and the timestamp format\<close>

lemma digitVal_digitByte: "k < 10 \<Longrightarrow> digitVal (digitByte k) = Some k"
proof -
  assume "k < 10"
  then have "k \<in> {0, 1, 2, 3, 4, 5, 6, 7, 8, 9}" by auto
  then show ?thesis
    by (auto simp: digitVal_def digitByte_def)
qed

lemma digitsVal_pad2: "n < 100 \<Longrightarrow> digitsVal 0 (pad2 n) = Some n"
  by (simp add: pad2_def digitVal_digitByte)

lemma decimal4:
  fixes n :: nat
  shows "10 * (10 * (10 * (n div 1000) + n div 100 mod 10) + n div 10 mod 10) + n mod 10 = n"
proof -
  have 1: "n = 10 * (n div 10) + n mod 10" by simp
  have "(n div 10) div 10 = n div 100" by (simp add: div_mult2_eq [symmetric])
  then have 2: "n div 10 = 10 * (n div 100) + n div 10 mod 10"
    using div_mult_mod_eq [of "n div 10" 10] by simp
  have "(n div 100) div 10 = n div 1000" by (simp add: div_mult2_eq [symmetric])
  then have 3: "n div 100 = 10 * (n div 1000) + n div 100 mod 10"
    using div_mult_mod_eq [of "n div 100" 10] by simp
  have "\<And>a b c e q1 q2 :: nat. n = 10 * q1 + e \<Longrightarrow> q1 = 10 * q2 + c \<Longrightarrow> q2 = 10 * a + b
      \<Longrightarrow> 10 * (10 * (10 * a + b) + c) + e = n"
    by simp
  from this [OF 1 2 3] show ?thesis .
qed

lemma digitsVal_pad4: "n < 10000 \<Longrightarrow> digitsVal 0 (pad4 n) = Some n"
proof -
  assume n: "n < 10000"
  have d: "n div 1000 < 10" "n div 100 mod 10 < 10" "n div 10 mod 10 < 10" "n mod 10 < 10"
    using n by auto
  have "digitsVal 0 [digitByte a, digitByte b, digitByte c, digitByte e]
          = Some (10 * (10 * (10 * a + b) + c) + e)"
    if "a < 10" "b < 10" "c < 10" "e < 10" for a b c e
    using that by (simp add: digitVal_digitByte)
  from this [OF d] have "digitsVal 0 (pad4 n)
      = Some (10 * (10 * (10 * (n div 1000) + n div 100 mod 10) + n div 10 mod 10) + n mod 10)"
    using n by (simp only: pad4_def if_True)
  then show ?thesis by (simp only: decimal4)
qed

lemma ceil_div_step:
  fixes y k :: int
  assumes k: "0 < k"
  shows "(y + k) div k = (y + (k - 1)) div k + (if y mod k = 0 then 1 else 0)"
proof -
  have r: "0 \<le> y mod k" "y mod k < k" using k by simp_all
  have "y + k = k * (y div k + 1) + y mod k"
    using mult_div_mod_eq [of k y] by (simp add: algebra_simps)
  then have up: "(y + k) div k = y div k + 1"
    using k r by (intro int_div_pos_eq [where r = "y mod k"]) simp_all
  show ?thesis
  proof (cases "y mod k = 0")
    case True
    have "y + (k - 1) = k * (y div k) + (k - 1)"
      using True mult_div_mod_eq [of k y] by simp
    then have "(y + (k - 1)) div k = y div k"
      using k by (intro int_div_pos_eq [where r = "k - 1"]) simp_all
    with up True show ?thesis by simp
  next
    case False
    have "y + (k - 1) = k * (y div k + 1) + (y mod k - 1)"
      using mult_div_mod_eq [of k y] by (simp add: algebra_simps)
    then have "(y + (k - 1)) div k = y div k + 1"
      using k r False by (intro int_div_pos_eq [where r = "y mod k - 1"]) simp_all
    with up False show ?thesis by simp
  qed
qed

lemma daysBeforeYear_Suc:
  "daysBeforeYear (y + 1) = daysBeforeYear y + (if isLeap y then 366 else 365)"
proof -
  define p4 p100 p400 where "p4 \<longleftrightarrow> y mod 4 = 0" and "p100 \<longleftrightarrow> y mod 100 = 0"
    and "p400 \<longleftrightarrow> y mod 400 = 0"
  define A B C where "A = (y + 3) div 4" and "B = (y + 99) div 100" and "C = (y + 399) div 400"
  define A' B' C' where "A' = (y + 4) div 4" and "B' = (y + 100) div 100"
    and "C' = (y + 400) div 400"
  have 4: "A' = A + (if p4 then 1 else 0)"
    unfolding A'_def A_def p4_def using ceil_div_step [of 4 y] by simp
  have 100: "B' = B + (if p100 then 1 else 0)"
    unfolding B'_def B_def p100_def using ceil_div_step [of 100 y] by simp
  have 400: "C' = C + (if p400 then 1 else 0)"
    unfolding C'_def C_def p400_def using ceil_div_step [of 400 y] by simp
  have "y mod 400 mod 100 = y mod 100" by (simp add: mod_mod_cancel)
  then have a: "p400 \<Longrightarrow> p100" unfolding p400_def p100_def by auto
  have "y mod 100 mod 4 = y mod 4" by (simp add: mod_mod_cancel)
  then have b: "p100 \<Longrightarrow> p4" unfolding p100_def p4_def by auto
  have l: "daysBeforeYear (y + 1) = 365 * (y + 1) + A' - B' + C'"
    unfolding daysBeforeYear_def A'_def B'_def C'_def by (simp add: add.commute add.left_commute)
  have r: "daysBeforeYear y = 365 * y + A - B + C"
    unfolding daysBeforeYear_def A_def B_def C_def by simp
  have leap: "isLeap y \<longleftrightarrow> p4 \<and> (\<not> p100 \<or> p400)"
    unfolding isLeap_def p4_def p100_def p400_def by simp
  show ?thesis
    unfolding l r leap 4 100 400 using a b by auto
qed

lemma daysBeforeYear_less: "daysBeforeYear y < daysBeforeYear (y + 1)"
  by (simp add: daysBeforeYear_Suc)

lemma daysBeforeYear_mono: "y \<le> z \<Longrightarrow> daysBeforeYear y \<le> daysBeforeYear z"
proof (induction z rule: int_ge_induct)
  case base
  show ?case by simp
next
  case (step i)
  then show ?case using daysBeforeYear_less [of i] by simp
qed

lemma daysBeforeYear_0: "daysBeforeYear 0 = 0"
  by (simp add: daysBeforeYear_def)

lemma daysBeforeYear_upper: "0 \<le> y \<Longrightarrow> daysBeforeYear y \<le> 366 * y"
proof (induction y rule: int_ge_induct)
  case base
  show ?case by (simp add: daysBeforeYear_0)
next
  case (step i)
  then show ?case by (simp add: daysBeforeYear_Suc)
qed

lemma daysBeforeYear_lower: "y \<le> 0 \<Longrightarrow> daysBeforeYear y \<le> 365 * y"
proof (induction y rule: int_le_induct)
  case base
  show ?case by (simp add: daysBeforeYear_0)
next
  case (step i)
  have "daysBeforeYear (i - 1 + 1) = daysBeforeYear (i - 1) + (if isLeap (i - 1) then 366 else 365)"
    by (rule daysBeforeYear_Suc)
  then show ?case using step by (simp split: if_splits)
qed

lemma daysBeforeYear_start:
  "daysBeforeYear (if d \<ge> 0 then d div 366 else d div 365 - 1) \<le> d"
proof (cases "d \<ge> 0")
  case True
  then have "0 \<le> d div 366" by simp
  then have "daysBeforeYear (d div 366) \<le> 366 * (d div 366)" by (rule daysBeforeYear_upper)
  also have "\<dots> \<le> d" using mult_div_mod_eq [of 366 d] by simp
  finally show ?thesis using True by simp
next
  case False
  then have "d div 365 - 1 \<le> 0" by simp
  then have "daysBeforeYear (d div 365 - 1) \<le> 365 * (d div 365 - 1)"
    by (rule daysBeforeYear_lower)
  also have "\<dots> \<le> d" using mult_div_mod_eq [of 365 d] by simp
  finally show ?thesis using False by simp
qed

lemma yearFrom_bounds:
  "daysBeforeYear y0 \<le> d \<Longrightarrow>
   daysBeforeYear (yearFrom d y0) \<le> d \<and> d < daysBeforeYear (yearFrom d y0 + 1)"
proof (induction d y0 rule: yearFrom.induct)
  case (1 d y)
  show ?case
  proof (cases "d < daysBeforeYear (y + 1)")
    case True
    then have "yearFrom d y = y" by (subst yearFrom.simps) simp
    with True "1.prems" show ?thesis by simp
  next
    case False
    then have eq: "yearFrom d y = yearFrom d (y + 1)" by (subst yearFrom.simps) simp
    from False have "daysBeforeYear (y + 1) \<le> d" by simp
    with "1.IH" False show ?thesis unfolding eq by blast
  qed
qed

lemma monthFrom_spec:
  "0 \<le> doy \<Longrightarrow> doy < sum_list ls \<Longrightarrow> monthFrom ls doy m0 = (m, dd) \<Longrightarrow>
   m0 \<le> m \<and> m - m0 < length ls \<and> 1 \<le> dd \<and> dd \<le> ls ! (m - m0)
   \<and> sum_list (take (m - m0) ls) + (dd - 1) = doy"
proof (induction ls arbitrary: doy m0)
  case Nil
  then show ?case by simp
next
  case (Cons l ls)
  show ?case
  proof (cases "doy < l")
    case True
    with Cons.prems show ?thesis by auto
  next
    case False
    with Cons.prems have rec: "monthFrom ls (doy - l) (Suc m0) = (m, dd)"
      and pos: "0 \<le> doy - l" and lt: "doy - l < sum_list ls"
      by auto
    from Cons.IH [OF pos lt rec]
    have ih: "Suc m0 \<le> m" "m - Suc m0 < length ls" "1 \<le> dd" "dd \<le> ls ! (m - Suc m0)"
      "sum_list (take (m - Suc m0) ls) + (dd - 1) = doy - l"
      by simp_all
    from ih(1) have k: "m - m0 = Suc (m - Suc m0)" by simp
    show ?thesis unfolding k using ih by simp
  qed
qed

lemma sum_list_monthLengths: "sum_list (monthLengths y) = (if isLeap y then 366 else 365)"
  by (simp add: monthLengths_def)

lemma length_monthLengths: "length (monthLengths y) = 12"
  by (simp add: monthLengths_def)

lemma civilFromDays_spec:
  assumes "civilFromDays d = (y, m, dd)"
  shows "daysBeforeYear y \<le> d \<and> d < daysBeforeYear (y + 1)
    \<and> 1 \<le> m \<and> m \<le> 12 \<and> 1 \<le> dd \<and> dd \<le> monthLengths y ! (m - 1)
    \<and> daysFromCivil y m dd = d"
proof -
  let ?y0 = "if d \<ge> 0 then d div 366 else d div 365 - 1"
  from assms have y: "y = yearFrom d ?y0"
    and mf: "monthFrom (monthLengths y) (d - daysBeforeYear y) 1 = (m, dd)"
    by (auto simp: civilFromDays_def Let_def split: prod.splits)
  have b: "daysBeforeYear y \<le> d" "d < daysBeforeYear (y + 1)"
    using yearFrom_bounds [OF daysBeforeYear_start [of d]] unfolding y by simp_all
  have pos: "0 \<le> d - daysBeforeYear y" using b by simp
  have lt: "d - daysBeforeYear y < sum_list (monthLengths y)"
    using b(2) by (simp add: daysBeforeYear_Suc sum_list_monthLengths)
  from monthFrom_spec [OF pos lt mf]
  have s: "1 \<le> m" "m - 1 < 12" "1 \<le> dd" "dd \<le> monthLengths y ! (m - 1)"
    "sum_list (take (m - 1) (monthLengths y)) + (dd - 1) = d - daysBeforeYear y"
    by (simp_all add: length_monthLengths)
  from s(1,2) have "m \<le> 12" by simp
  moreover have "daysFromCivil y m dd = d" using s(5) by (simp add: daysFromCivil_def)
  ultimately show ?thesis using b s by simp
qed

lemma civilFromDays_year_range:
  assumes "civilFromDays d = (y, m, dd)" and "0 \<le> d" and "d < daysBeforeYear 10000"
  shows "0 \<le> y \<and> y < 10000"
proof -
  from civilFromDays_spec [OF assms(1)]
  have b: "daysBeforeYear y \<le> d" "d < daysBeforeYear (y + 1)" by simp_all
  have "0 \<le> y"
  proof (rule ccontr)
    assume "\<not> 0 \<le> y"
    then have "y + 1 \<le> 0" by simp
    then have "daysBeforeYear (y + 1) \<le> daysBeforeYear 0" by (rule daysBeforeYear_mono)
    with b(2) assms(2) show False by (simp add: daysBeforeYear_0)
  qed
  moreover have "y < 10000"
  proof (rule ccontr)
    assume "\<not> y < 10000"
    then have "10000 \<le> y" by simp
    then have "daysBeforeYear 10000 \<le> daysBeforeYear y" by (rule daysBeforeYear_mono)
    with b(1) assms(3) show False by simp
  qed
  ultimately show ?thesis by simp
qed

lemma monthLengths_le_31: "m < 12 \<Longrightarrow> monthLengths y ! m \<le> 31"
proof -
  assume "m < 12"
  then have "m = 0 \<or> m = 1 \<or> m = 2 \<or> m = 3 \<or> m = 4 \<or> m = 5 \<or> m = 6 \<or> m = 7
      \<or> m = 8 \<or> m = 9 \<or> m = 10 \<or> m = 11"
    by arith
  then show ?thesis by (auto simp: monthLengths_def)
qed

lemma length_pad2: "length (pad2 n) = 2"
  by (simp add: pad2_def)

lemma length_pad4: "n < 10000 \<Longrightarrow> length (pad4 n) = 4"
  by (simp add: pad4_def)

lemma parseRFC3339_fields:
  assumes y: "y < 10000" and f: "m < 100" "dd < 100" "h < 100" "mi < 100" "se < 100"
  shows "parseRFC3339 (pad4 y @ ''-'' @ pad2 m @ ''-'' @ pad2 dd @ ''T'' @
           pad2 h @ '':'' @ pad2 mi @ '':'' @ pad2 se @ ''Z'')
     = (if m < 1 \<or> m > 12 \<or> dd < 1 \<or> int dd > monthLengths (int y) ! (m - 1)
           \<or> h \<ge> 24 \<or> mi \<ge> 60 \<or> se \<ge> 60
        then Inl (Error ''parsing time: out of range'')
        else Inr (((daysFromCivil (int y) m (int dd) - unixEpochDays) * 86400
                   + int h * 3600 + int mi * 60 + int se) * 1000000000))"
proof -
  obtain y1 y2 y3 y4 where p4: "pad4 y = [y1, y2, y3, y4]"
    using y by (simp add: pad4_def)
  obtain m1 m2 where pm: "pad2 m = [m1, m2]" by (simp add: pad2_def)
  obtain d1 d2 where pd: "pad2 dd = [d1, d2]" by (simp add: pad2_def)
  obtain h1 h2 where ph: "pad2 h = [h1, h2]" by (simp add: pad2_def)
  obtain i1 i2 where pi: "pad2 mi = [i1, i2]" by (simp add: pad2_def)
  obtain s1 s2 where ps: "pad2 se = [s1, s2]" by (simp add: pad2_def)
  have v: "digitsVal 0 [y1, y2, y3, y4] = Some y" "digitsVal 0 [m1, m2] = Some m"
    "digitsVal 0 [d1, d2] = Some dd" "digitsVal 0 [h1, h2] = Some h"
    "digitsVal 0 [i1, i2] = Some mi" "digitsVal 0 [s1, s2] = Some se"
    using digitsVal_pad4 [OF y] digitsVal_pad2 [OF f(1)] digitsVal_pad2 [OF f(2)]
      digitsVal_pad2 [OF f(3)] digitsVal_pad2 [OF f(4)] digitsVal_pad2 [OF f(5)]
    unfolding p4 pm pd ph pi ps by simp_all
  show ?thesis
    unfolding p4 pm pd ph pi ps parseRFC3339_def
    by (simp only: v append_Cons append_Nil list.size length_Cons take_Suc_Cons
        take_0 drop_Suc_Cons drop_0 nth_Cons_Suc nth_Cons_0 numeral_eq_Suc pred_numeral_simps
        Num.BitM.simps One_nat_def) simp
qed

lemma daysBeforeYear_10000: "daysBeforeYear 10000 = 3652425"
  by (simp add: daysBeforeYear_def)

lemma clock_fields:
  fixes r :: int
  assumes "0 \<le> r" and "r < 86400"
  shows "r div 3600 < 24" and "0 \<le> r div 3600"
    and "r mod 3600 div 60 < 60" and "0 \<le> r mod 3600 div 60"
    and "r mod 60 < 60" and "0 \<le> r mod 60"
    and "r div 3600 * 3600 + r mod 3600 div 60 * 60 + r mod 60 = r"
proof -
  have "r \<le> 86399" using assms by simp
  then have "r div 3600 \<le> 86399 div 3600" by (intro zdiv_mono1) simp_all
  then show "r div 3600 < 24" by simp
  show "0 \<le> r div 3600" using assms by simp
  have m: "0 \<le> r mod 3600" "r mod 3600 < 3600" by simp_all
  have "r mod 3600 \<le> 3599" using m by simp
  then have "r mod 3600 div 60 \<le> 3599 div 60" by (intro zdiv_mono1) simp_all
  then show "r mod 3600 div 60 < 60" by simp
  show "0 \<le> r mod 3600 div 60" using m by simp
  show "r mod 60 < 60" "0 \<le> r mod 60" by simp_all
  have a: "r = 3600 * (r div 3600) + r mod 3600" by simp
  have b: "r mod 3600 = 60 * (r mod 3600 div 60) + r mod 3600 mod 60" by simp
  have c: "r mod 3600 mod 60 = r mod 60" by (simp add: mod_mod_cancel)
  define q1 q2 q3 q4 where "q1 = r div 3600" and "q2 = r mod 3600" and "q3 = r mod 3600 div 60"
    and "q4 = r mod 60"
  have "r = 3600 * q1 + q2" "q2 = 60 * q3 + q4"
    using a b c unfolding q1_def q2_def q3_def q4_def by simp_all
  then have "q1 * 3600 + q3 * 60 + q4 = r" by simp
  then show "r div 3600 * 3600 + r mod 3600 div 60 * 60 + r mod 60 = r"
    unfolding q1_def q3_def q4_def .
qed

lemma day_range:
  fixes sec :: int
  assumes "- 62167219200 \<le> sec" and "sec < 253402300800"
  shows "0 \<le> sec div 86400 + unixEpochDays"
    and "sec div 86400 + unixEpochDays < daysBeforeYear 10000"
proof -
  have "(- 62167219200) div 86400 \<le> sec div 86400"
    using assms(1) by (intro zdiv_mono1) simp_all
  then have "- 719528 \<le> sec div 86400" by simp
  then show "0 \<le> sec div 86400 + unixEpochDays" by (simp add: unixEpochDays_def)
  have "sec \<le> 253402300799" using assms(2) by simp
  then have "sec div 86400 \<le> 253402300799 div 86400" by (intro zdiv_mono1) simp_all
  then have "sec div 86400 < 2932897" by simp
  then show "sec div 86400 + unixEpochDays < daysBeforeYear 10000"
    by (simp add: unixEpochDays_def daysBeforeYear_10000)
qed

lemma formatRFC3339_roundtrip:
  assumes lo: "- 62167219200 \<le> t div 1000000000" and hi: "t div 1000000000 < 253402300800"
  shows "parseRFC3339 (formatRFC3339 t) = Inr (t div 1000000000 * 1000000000)"
proof -
  define sec where "sec = t div 1000000000"
  define d where "d = sec div 86400 + unixEpochDays"
  define r where "r = sec mod 86400"
  obtain y m dd where c: "civilFromDays d = (y, m, dd)" by (cases "civilFromDays d") auto
  have dr: "0 \<le> d" "d < daysBeforeYear 10000"
    using day_range [of sec] lo hi unfolding sec_def d_def by simp_all
  from civilFromDays_spec [OF c]
  have s: "1 \<le> m" "m \<le> 12" "1 \<le> dd" "dd \<le> monthLengths y ! (m - 1)"
    "daysFromCivil y m dd = d"
    by simp_all
  from civilFromDays_year_range [OF c dr] have yr: "0 \<le> y" "y < 10000" by simp_all
  have "monthLengths y ! (m - 1) \<le> 31" using s(1,2) by (intro monthLengths_le_31) simp
  with s(4) have dd31: "dd \<le> 31" by simp
  have rr: "0 \<le> r" "r < 86400" unfolding r_def by simp_all
  note cf = clock_fields [OF rr]
  define Y M D H Mi S where "Y = nat y" and "M = m" and "D = nat dd" and "H = nat (r div 3600)"
    and "Mi = nat (r mod 3600 div 60)" and "S = nat (r mod 60)"
  have fmt: "formatRFC3339 t = pad4 Y @ ''-'' @ pad2 M @ ''-'' @ pad2 D @ ''T'' @
      pad2 H @ '':'' @ pad2 Mi @ '':'' @ pad2 S @ ''Z''"
    using c yr(1)
    by (simp add: formatRFC3339_def Let_def formatYear_def sec_def [symmetric] d_def [symmetric]
        r_def [symmetric] Y_def M_def D_def H_def Mi_def S_def)
  have bounds: "Y < 10000" "M < 100" "D < 100" "H < 100" "Mi < 100" "S < 100"
    using yr s(2) dd31 s(3) cf(1-6) unfolding Y_def M_def D_def H_def Mi_def S_def by simp_all
  have ints: "int Y = y" "int D = dd" "int H = r div 3600" "int Mi = r mod 3600 div 60"
    "int S = r mod 60"
    using yr(1) s(3) cf(2,4,6) unfolding Y_def D_def H_def Mi_def S_def by simp_all
  have clock: "H < 24" "Mi < 60" "S < 60"
    using cf(1-6) unfolding H_def Mi_def S_def by simp_all
  have date: "1 \<le> M" "M \<le> 12" "1 \<le> D" "int D \<le> monthLengths (int Y) ! (M - 1)"
    using s(1-4) unfolding ints unfolding M_def D_def by simp_all
  have ok: "\<not> (M < 1 \<or> M > 12 \<or> D < 1 \<or> int D > monthLengths (int Y) ! (M - 1)
      \<or> H \<ge> 24 \<or> Mi \<ge> 60 \<or> S \<ge> 60)"
    using clock date by simp
  have "sec = sec div 86400 * 86400 + r" unfolding r_def by simp
  then have total: "(d - unixEpochDays) * 86400 + r = sec" unfolding d_def by simp
  have "parseRFC3339 (formatRFC3339 t)
      = Inr (((daysFromCivil (int Y) M (int D) - unixEpochDays) * 86400
              + int H * 3600 + int Mi * 60 + int S) * 1000000000)"
    unfolding fmt parseRFC3339_fields [OF bounds] using ok by (simp only: if_False)
  also have "(daysFromCivil (int Y) M (int D) - unixEpochDays) * 86400
              + int H * 3600 + int Mi * 60 + int S = (d - unixEpochDays) * 86400 + r"
    unfolding ints M_def s(5) using cf(7) by simp
  finally show ?thesis unfolding total sec_def .
qed

section \<open>The metadata file\<close>

lemma zeroTime_whole: "zeroTime div 1000000000 * 1000000000 = zeroTime"
  by (simp add: zeroTime_def)

lemma unmarshalTime_marshalTime:
  assumes "- 62167219200 \<le> t div 1000000000" and "t div 1000000000 < 253402300800"
  shows "unmarshalTime (marshalTime t) = Inr (t div 1000000000 * 1000000000)"
proof (cases "t = zeroTime")
  case True
  then show ?thesis by (simp add: marshalTime_def unmarshalTime_def zeroTime_whole)
next
  case False
  have ne: "dquote # formatRFC3339 t @ [dquote] \<noteq> ''null''" by (simp add: dquote_def)
  have "unmarshalTime (dquote # formatRFC3339 t @ [dquote]) = parseRFC3339 (formatRFC3339 t)"
    unfolding unmarshalTime_def using ne by (simp add: butlast_append dquote_def)
  then show ?thesis
    using False formatRFC3339_roundtrip [OF assms] by (simp add: marshalTime_def)
qed

lemma unmarshalMetadata_wrap:
  "unmarshalMetadata (metadataPrefix @ b @ ''}'')
     = (case unmarshalTime b of Inl err \<Rightarrow> Inl err | Inr t \<Rightarrow> Inr \<lparr>ExpiresAt = t\<rparr>)"
proof -
  have "HasPrefix (metadataPrefix @ b @ ''}'') metadataPrefix" by (auto simp: HasPrefix_iff)
  then show ?thesis by (simp add: unmarshalMetadata_def butlast_append)
qed

lemma unmarshalMetadata_marshalMetadata:
  assumes "- 62167219200 \<le> t div 1000000000" and "t div 1000000000 < 253402300800"
    and "marshalMetadata \<lparr>ExpiresAt = t\<rparr> = Inr raw"
  shows "unmarshalMetadata raw = Inr \<lparr>ExpiresAt = t div 1000000000 * 1000000000\<rparr>"
proof -
  from assms(3) have "raw = metadataPrefix @ marshalTime t @ ''}''"
    by (simp add: marshalMetadata_def)
  then show ?thesis
    by (simp only: unmarshalMetadata_wrap unmarshalTime_marshalTime [OF assms(1,2)] sum.case)
qed

lemma yearFrom_farExpiry: "yearFrom 3652425 9979 = 10000"
  by (simp add: daysBeforeYear_def)

lemma civilFromDays_farExpiry: "civilFromDays 3652425 = (10000, 1, 1)"
  by (simp add: civilFromDays_def yearFrom_farExpiry monthLengths_def daysBeforeYear_def)

lemma seconds_farExpiry: "farExpiry div 1000000000 = 253402304399"
  by (simp add: farExpiry_def)

lemma format_farExpiry: "formatRFC3339 farExpiry = ''10000-01-01T00:59:59Z''"
  by (simp add: formatRFC3339_def seconds_farExpiry unixEpochDays_def civilFromDays_farExpiry formatYear_def pad4_def pad2_def
      digitByte_def)

lemma lookup_writeFile_same: "writeFile p b t = Some t' \<Longrightarrow> lookup t' p = Some (File b)"
proof (induction p b t arbitrary: t' rule: writeFile.induct)
  case (1 b n)
  then show ?case by simp
next
  case (2 c cs b x)
  then show ?case by simp
next
  case (3 c b es)
  then show ?case by (auto simp: map_of_setEntry split: option.splits fsnode.splits)
next
  case (4 c c' cs b es)
  then show ?case by (auto simp: map_of_setEntry split: option.splits)
qed

lemma lookup_Dir_Nil: "lookup (Dir []) (c # cs) = None"
  by simp

lemma lookup_writeFile_other:
  "writeFile (r @ a # p) b t = Some t' \<Longrightarrow> a \<noteq> c \<Longrightarrow>
   lookup t' (r @ c # q) = lookup t (r @ c # q)"
proof (induction r arbitrary: t t')
  case Nil
  then show ?case
    by (cases t; cases p) (auto simp: map_of_setEntry split: option.splits fsnode.splits)
next
  case (Cons x r)
  obtain y ys where ne: "r @ a # p = y # ys" by (cases r) auto
  from Cons.prems(1) obtain es where t: "t = Dir es" by (cases t) auto
  from Cons.prems(1) obtain n n' where n: "map_of es x = Some n"
    and w: "writeFile (r @ a # p) b n = Some n'" and t': "t' = Dir (setEntry x n' es)"
    unfolding t by (auto simp: ne split: option.splits)
  from Cons.IH [OF w Cons.prems(2)] show ?case
    unfolding t t' by (simp add: map_of_setEntry n)
qed

lemma lookup_mkdirAll_other:
  "mkdirAll (r @ a # p) t = Some t' \<Longrightarrow> a \<noteq> c \<Longrightarrow>
   lookup t' (r @ c # q) = lookup t (r @ c # q)"
proof (induction r arbitrary: t t')
  case Nil
  then show ?case
    by (cases t) (auto simp: map_of_setEntry split: option.splits)
next
  case (Cons x r)
  from Cons.prems(1) obtain es where t: "t = Dir es" by (cases t) auto
  let ?n = "case map_of es x of None \<Rightarrow> Dir [] | Some n \<Rightarrow> n"
  from Cons.prems(1) obtain n' where w: "mkdirAll (r @ a # p) ?n = Some n'"
    and t': "t' = Dir (setEntry x n' es)"
    unfolding t by (auto split: option.splits)
  have "lookup n' (r @ c # q) = lookup ?n (r @ c # q)"
    using Cons.IH [OF w Cons.prems(2)] .
  moreover have "lookup (Dir []) (r @ c # q) = None" by (cases r) simp_all
  ultimately show ?case
    unfolding t t' by (simp add: map_of_setEntry split: option.splits)
qed

lemma writeMetadataTo_ok:
  assumes "writeMetadataTo b (errs, w) p = ([], w')"
  shows "errs = [] \<and> (\<exists>t1. mkdirAll p (tree w) = Some t1
           \<and> writeFile (p @ [cachePartitionMetadataFileName]) b t1 = Some (tree w'))"
  using assms
  by (auto simp: writeMetadataTo_def MkdirAll_def WriteFile_def Let_def
      split: option.splits prod.splits)

lemma writecachePartitionMetadata_ok:
  assumes "writecachePartitionMetadata marshal p1 p2 (Some t) w = (None, w')"
  shows "\<exists>raw t1 t2 t3. marshal \<lparr>ExpiresAt = t\<rparr> = Inr raw
      \<and> mkdirAll p1 (tree w) = Some t1
      \<and> writeFile (p1 @ [cachePartitionMetadataFileName]) raw t1 = Some t2
      \<and> mkdirAll p2 t2 = Some t3
      \<and> writeFile (p2 @ [cachePartitionMetadataFileName]) raw t3 = Some (tree w')"
proof -
  from assms obtain raw where raw: "marshal \<lparr>ExpiresAt = t\<rparr> = Inr raw"
    by (auto simp: writecachePartitionMetadata_def split: sum.splits)
  obtain errs1 w1 where s1: "writeMetadataTo raw ([], w) p1 = (errs1, w1)"
    by (cases "writeMetadataTo raw ([], w) p1") auto
  from assms raw s1 have s2: "writeMetadataTo raw (errs1, w1) p2 = ([], w')"
    by (auto simp: writecachePartitionMetadata_def NewAggregate_def
        split: prod.splits if_splits)
  from writeMetadataTo_ok [OF s2] obtain t3 where e1: "errs1 = []"
    and m2: "mkdirAll p2 (tree w1) = Some t3"
    and f2: "writeFile (p2 @ [cachePartitionMetadataFileName]) raw t3 = Some (tree w')"
    by blast
  from writeMetadataTo_ok [OF s1 [unfolded e1]] obtain t1
    where m1: "mkdirAll p1 (tree w) = Some t1"
      and f1: "writeFile (p1 @ [cachePartitionMetadataFileName]) raw t1 = Some (tree w1)"
    by blast
  from raw m1 f1 m2 f2 show ?thesis by blast
qed

lemma written_files:
  assumes "writecachePartitionMetadata marshal (cacheDir @ [''data'', key])
             (cacheDir @ [''temp'', key]) (Some t) w = (None, w')"
  shows "\<exists>raw. marshal \<lparr>ExpiresAt = t\<rparr> = Inr raw
      \<and> ReadFile (cacheDir @ [''data'', key, cachePartitionMetadataFileName]) w' = Inr raw
      \<and> ReadFile (cacheDir @ [''temp'', key, cachePartitionMetadataFileName]) w' = Inr raw"
proof -
  let ?f = cachePartitionMetadataFileName
  from writecachePartitionMetadata_ok [OF assms] obtain raw t1 t2 t3
    where raw: "marshal \<lparr>ExpiresAt = t\<rparr> = Inr raw"
      and f1: "writeFile ((cacheDir @ [''data'', key]) @ [?f]) raw t1 = Some t2"
      and m2: "mkdirAll (cacheDir @ [''temp'', key]) t2 = Some t3"
      and f2: "writeFile ((cacheDir @ [''temp'', key]) @ [?f]) raw t3 = Some (tree w')"
    by blast
  have ne: "''temp'' \<noteq> ''data''" by simp
  have "lookup t2 (cacheDir @ ''data'' # [key, ?f]) = Some (File raw)"
    using lookup_writeFile_same [OF f1] by simp
  moreover have "lookup t3 (cacheDir @ ''data'' # [key, ?f]) = lookup t2 (cacheDir @ ''data'' # [key, ?f])"
    using m2 ne by (intro lookup_mkdirAll_other [where a = "''temp''" and p = "[key]"]) simp_all
  moreover have "lookup (tree w') (cacheDir @ ''data'' # [key, ?f])
      = lookup t3 (cacheDir @ ''data'' # [key, ?f])"
    using f2 ne
    by (intro lookup_writeFile_other [where a = "''temp''" and p = "[key, ?f]" and b = raw])
      simp_all
  ultimately have d: "lookup (tree w') (cacheDir @ [''data'', key, ?f]) = Some (File raw)"
    by simp
  have t: "lookup (tree w') (cacheDir @ [''temp'', key, ?f]) = Some (File raw)"
    using lookup_writeFile_same [OF f2] by simp
  from raw d t show ?thesis by (auto simp: ReadFile_Inr)
qed

text \<open>
  Claim C8 says that the round trip holds for every expiry. A timestamp of the layout has
  four digits of year: an expiry in the year 10000 of UTC (such as the last second of 9999
  one hour west of Greenwich, which the token-expiry header can carry) is written with
  five digits, and reading the file back fails.
\<close>

theorem metadata_roundtrip_year_10000_counterexample:
  "marshalMetadata \<lparr>ExpiresAt = farExpiry\<rparr>
     = Inr (metadataPrefix @ dquote # ''10000-01-01T00:59:59Z'' @ [dquote] @ ''}'')
   \<and> unmarshalMetadata (metadataPrefix @ dquote # ''10000-01-01T00:59:59Z'' @ [dquote] @ ''}'')
     = Inl (Error ''parsing time: cannot parse'')"
proof -
  have "farExpiry \<noteq> zeroTime" by (simp add: farExpiry_def zeroTime_def)
  then have m: "marshalTime farExpiry = dquote # ''10000-01-01T00:59:59Z'' @ [dquote]"
    by (simp add: marshalTime_def format_farExpiry)
  have "unmarshalTime (dquote # ''10000-01-01T00:59:59Z'' @ [dquote])
      = Inl (Error ''parsing time: cannot parse'')"
    by (simp add: unmarshalTime_def parseRFC3339_def dquote_def)
  then have "unmarshalMetadata (metadataPrefix @ (dquote # ''10000-01-01T00:59:59Z'' @ [dquote]) @ ''}'')
      = Inl (Error ''parsing time: cannot parse'')"
    by (simp only: unmarshalMetadata_wrap sum.case)
  then show ?thesis by (simp add: marshalMetadata_def m)
qed

text \<open>
  Claim C8, as amended. For every expiry from the year 0 to the year 9999 in UTC (from
  -62167219200 up to, not including, 253402300800 seconds of Unix time), serializing the metadata record and deserializing the bytes yields the expiry cut to
  the whole second; and when \<open>writecachePartitionMetadata\<close> has written the record of a
  partition without error, the file read back from its directory under \<open>data\<close>, and the
  one under \<open>temp\<close>, deserialize to that same value.
\<close>

theorem metadata_roundtrip:
  assumes "- 62167219200 \<le> t div 1000000000" and "t div 1000000000 < 253402300800"
  shows "(\<exists>raw. marshalMetadata \<lparr>ExpiresAt = t\<rparr> = Inr raw
            \<and> unmarshalMetadata raw = Inr \<lparr>ExpiresAt = t div 1000000000 * 1000000000\<rparr>)
    \<and> (\<forall>w w'. writecachePartitionMetadata marshalMetadata (cacheDir @ [''data'', key])
                 (cacheDir @ [''temp'', key]) (Some t) w = (None, w')
          \<longrightarrow> (\<exists>raw. ReadFile (cacheDir @ [''data'', key, cachePartitionMetadataFileName]) w'
                        = Inr raw
                   \<and> unmarshalMetadata raw
                        = Inr \<lparr>ExpiresAt = t div 1000000000 * 1000000000\<rparr>)
            \<and> (\<exists>raw. ReadFile (cacheDir @ [''temp'', key, cachePartitionMetadataFileName]) w'
                        = Inr raw
                   \<and> unmarshalMetadata raw
                        = Inr \<lparr>ExpiresAt = t div 1000000000 * 1000000000\<rparr>))"
proof (intro conjI allI impI)
  show "\<exists>raw. marshalMetadata \<lparr>ExpiresAt = t\<rparr> = Inr raw
      \<and> unmarshalMetadata raw = Inr \<lparr>ExpiresAt = t div 1000000000 * 1000000000\<rparr>"
    using unmarshalMetadata_marshalMetadata [OF assms] by (simp add: marshalMetadata_def)
next
  fix w w'
  assume "writecachePartitionMetadata marshalMetadata (cacheDir @ [''data'', key])
            (cacheDir @ [''temp'', key]) (Some t) w = (None, w')"
  from written_files [OF this] obtain raw
    where raw: "marshalMetadata \<lparr>ExpiresAt = t\<rparr> = Inr raw"
      and d: "ReadFile (cacheDir @ [''data'', key, cachePartitionMetadataFileName]) w' = Inr raw"
      and tmp: "ReadFile (cacheDir @ [''temp'', key, cachePartitionMetadataFileName]) w' = Inr raw"
    by blast
  have u: "unmarshalMetadata raw = Inr \<lparr>ExpiresAt = t div 1000000000 * 1000000000\<rparr>"
    using assms raw by (rule unmarshalMetadata_marshalMetadata)
  from d u show "\<exists>raw. ReadFile (cacheDir @ [''data'', key, cachePartitionMetadataFileName]) w'
        = Inr raw
      \<and> unmarshalMetadata raw = Inr \<lparr>ExpiresAt = t div 1000000000 * 1000000000\<rparr>"
    by blast
  from tmp u show "\<exists>raw. ReadFile (cacheDir @ [''temp'', key, cachePartitionMetadataFileName]) w'
        = Inr raw
      \<and> unmarshalMetadata raw = Inr \<lparr>ExpiresAt = t div 1000000000 * 1000000000\<rparr>"
    by blast
qed

lemma write_emptyDisk:
  "fst (writecachePartitionMetadata marshalMetadata [''cache'', ''data'', ''k'']
          [''cache'', ''temp'', ''k''] (Some nearExpiry) emptyDisk) = None"
  by (simp add: writecachePartitionMetadata_def marshalMetadata_def writeMetadataTo_def
      MkdirAll_def WriteFile_def emptyDisk_def NewAggregate_def Let_def
      cachePartitionMetadataFileName_def)

theorem metadata_roundtrip_witness:
  "(\<exists>raw. marshalMetadata \<lparr>ExpiresAt = nearExpiry\<rparr> = Inr raw
       \<and> unmarshalMetadata raw = Inr \<lparr>ExpiresAt = 1700000000000000000\<rparr>)
   \<and> (\<exists>raw. ReadFile [''cache'', ''data'', ''k'', ''.cache_metadata.json'']
               (snd (writecachePartitionMetadata marshalMetadata [''cache'', ''data'', ''k'']
                       [''cache'', ''temp'', ''k''] (Some nearExpiry) emptyDisk)) = Inr raw
       \<and> unmarshalMetadata raw = Inr \<lparr>ExpiresAt = 1700000000000000000\<rparr>)"
proof -
  have r: "- 62167219200 \<le> nearExpiry div 1000000000" "nearExpiry div 1000000000 < 253402300800"
    and v: "nearExpiry div 1000000000 * 1000000000 = 1700000000000000000"
    by (simp_all add: nearExpiry_def)
  let ?w' = "snd (writecachePartitionMetadata marshalMetadata [''cache'', ''data'', ''k'']
                    [''cache'', ''temp'', ''k''] (Some nearExpiry) emptyDisk)"
  have ok: "writecachePartitionMetadata marshalMetadata ([''cache''] @ [''data'', ''k''])
              ([''cache''] @ [''temp'', ''k'']) (Some nearExpiry) emptyDisk = (None, ?w')"
    using write_emptyDisk by (simp add: prod_eq_iff)
  from metadata_roundtrip [OF r, of "[''cache'']" "''k''"] ok show ?thesis
    unfolding v by (simp add: cachePartitionMetadataFileName_def)
qed

end
